theory Spec2Isabelle
  imports Main "HOL-Library.Word"
begin

unbundle bit_operations_syntax

section \<open>Bytes and faults\<close>

text \<open>
  The sources work on \<^verbatim>\<open>unsigned char\<close> buffers; a byte is an 8-bit word. The
  \<^verbatim>\<open>unsigned\<close> counters of \<^verbatim>\<open>session.c\<close> are 32-bit words, so that their
  arithmetic wraps as in C.
\<close>

type_synonym byte = "8 word"

definition bytes_of :: "string \<Rightarrow> byte list" where
  "bytes_of cs = map of_char cs"

text \<open>
  Every way a run of the model can end without returning normally: \<^verbatim>\<open>errx\<close> (exit
  with a message), \<^verbatim>\<open>abort\<close>, and an access to memory that the model does not lay
  out (C leaves it undefined; the definitions say where the compiled program goes on).
\<close>

datatype fault = Errx string | Abort | OutOfBounds

definition andthen :: "fault + 'a \<Rightarrow> ('a \<Rightarrow> fault + 'b) \<Rightarrow> fault + 'b" where
  "andthen r f = (case r of Inl e \<Rightarrow> Inl e | Inr x \<Rightarrow> f x)"

section \<open>The session state of session.c\<close>

text \<open>
  The struct \<^verbatim>\<open>wts\<close>, field by field, followed by the file's other statics
  (\<^verbatim>\<open>kbuf\<close>, \<^verbatim>\<open>kbufsz\<close>, the dump counter \<^verbatim>\<open>dimp\<close>) and by the bytes written
  so far to each file descriptor. Arrays are maps from the index to the byte.
  \<^verbatim>\<open>rwoutbuf\<close> holds the \<^verbatim>\<open>rwoutlen\<close> bytes in use and \<^verbatim>\<open>kbuf\<close> the \<^verbatim>\<open>kbufsz\<close>
  bytes in use, so these two lengths are the lengths of the lists.
\<close>

record wts =
  sendsigwin :: bool
  swrow :: "16 word"
  swcol :: "16 word"
  wsi :: "32 word"
  winsize :: "nat \<Rightarrow> byte"
  escp :: byte
  linebuf :: "nat \<Rightarrow> byte"
  escbuf :: "nat \<Rightarrow> byte"
  linesz :: "32 word"
  linepos :: "32 word"
  escsz :: "32 word"
  altscren :: bool
  appcursor :: bool
  rwout :: bool
  rwoutbuf :: "byte list"
  rwoutsz :: nat
  logfd :: int
  rawlogfd :: int
  kbuf :: "byte list"
  dimp :: nat
  written :: "int \<Rightarrow> byte list"

text \<open>The state after \<^verbatim>\<open>memset(&wts, 0, sizeof(wts))\<close>, with nothing written yet.\<close>

definition wts0 :: wts where
  "wts0 = \<lparr> sendsigwin = False, swrow = 0, swcol = 0, wsi = 0, winsize = (\<lambda>_. 0),
     escp = 0, linebuf = (\<lambda>_. 0), escbuf = (\<lambda>_. 0), linesz = 0, linepos = 0,
     escsz = 0, altscren = False, appcursor = False, rwout = False, rwoutbuf = [],
     rwoutsz = 0, logfd = 0, rawlogfd = 0, kbuf = [], dimp = 0, written = (\<lambda>_. []) \<rparr>"

text \<open>
  \<^verbatim>\<open>fullwrite\<close>: the loop around \<^verbatim>\<open>write\<close> hands all \<^verbatim>\<open>sz\<close> bytes to the descriptor
  (a failing \<^verbatim>\<open>write\<close> is the environment's and is not modelled).
\<close>

definition fullwrite :: "int \<Rightarrow> byte list \<Rightarrow> wts \<Rightarrow> wts" where
  "fullwrite fd bs s = s\<lparr>written := (written s)(fd := written s fd @ bs)\<rparr>"

text \<open>\<^verbatim>\<open>dump\<close> writes a diagnostic file of its own and counts it; the file's text is not modelled.\<close>

definition dump :: "wts \<Rightarrow> wts" where
  "dump s = s\<lparr>dimp := dimp s + 1\<rparr>"

section \<open>The client-bound buffer\<close>

definition verifyroutcap :: "nat \<Rightarrow> wts \<Rightarrow> wts" where
  "verifyroutcap needed s =
     (let minsz = length (rwoutbuf s) + needed in
      if minsz \<le> rwoutsz s then s
      else s\<lparr>rwoutsz := (if minsz * 2 < 16 then 16 else minsz * 2)\<rparr>)"

definition putroutraw :: "byte list \<Rightarrow> wts \<Rightarrow> wts" where
  "putroutraw bs s =
     (let s1 = verifyroutcap (length bs) s in s1\<lparr>rwoutbuf := rwoutbuf s1 @ bs\<rparr>)"

text \<open>\<^verbatim>\<open>hexdig\<close>: \<^verbatim>\<open>'0'\<close> is 48 and \<^verbatim>\<open>'W'\<close> is 87.\<close>

definition hexdig :: "int \<Rightarrow> int" where
  "hexdig v = (let v1 = v AND 0x0f in v1 + (if v1 < 10 then 48 else 87))"

text \<open>
  \<^verbatim>\<open>putrout\<close> takes a C \<^verbatim>\<open>int\<close>; storing into the \<^verbatim>\<open>unsigned char\<close> buffer keeps
  the low eight bits. Backslash is 92, space 32 and tilde 126.
\<close>

definition putrout :: "int \<Rightarrow> wts \<Rightarrow> wts" where
  "putrout b0 s =
     (let s1 = verifyroutcap 3 s; b = b0 AND 0xff in
      if b = 92 \<or> b < 32 \<or> b > 126
      then s1\<lparr>rwoutbuf := rwoutbuf s1 @
             [word_of_int 92, word_of_int (hexdig (drop_bit 4 b)), word_of_int (hexdig b)]\<rparr>
      else s1\<lparr>rwoutbuf := rwoutbuf s1 @ [word_of_int b]\<rparr>)"

text \<open>The two lowercase hexadecimal digits of a byte, as the claim words them.\<close>

definition lowerhex :: "nat \<Rightarrow> byte" where
  "lowerhex n = of_char (''0123456789abcdef'' ! n)"

definition hh :: "byte \<Rightarrow> byte list" where
  "hh b = [lowerhex (unat b div 16), lowerhex (unat b mod 16)]"

definition printable :: "byte \<Rightarrow> bool" where
  "printable b = (0x20 \<le> b \<and> b \<le> 0x7e \<and> b \<noteq> 0x5c)"

section \<open>The terminal filter: process_tty_out\<close>

text \<open>
  \<^verbatim>\<open>SAFEPTR(buf, start, regsz)\<close> is \<^verbatim>\<open>buf + start % (sizeof(buf) - regsz + 1)\<close>; the
  model gives the index, \<^verbatim>\<open>bufsize\<close> standing for \<^verbatim>\<open>sizeof(buf)\<close>.
\<close>

definition SAFEPTR :: "nat \<Rightarrow> 32 word \<Rightarrow> nat \<Rightarrow> nat" where
  "SAFEPTR bufsize start regsz = unat start mod (bufsize - regsz + 1)"

text \<open>
  \<^verbatim>\<open>consumeesc\<close> returns whether \<^verbatim>\<open>escbuf\<close> holds exactly \<^verbatim>\<open>pref\<close>, and empties it
  when it does.
\<close>

definition consumeesc :: "byte list \<Rightarrow> wts \<Rightarrow> fault + (bool \<times> wts)" where
  "consumeesc pref s =
     (if 1024 < length pref then Inl (Errx ''preflen too long'')
      else if unat (escsz s) \<noteq> length pref then Inr (False, s)
      else if map (escbuf s) [0..<length pref] \<noteq> pref then Inr (False, s)
      else Inr (True, s\<lparr>escsz := 0\<rparr>))"

text \<open>
  The C library's \<^verbatim>\<open>isspace\<close> and \<^verbatim>\<open>isdigit\<close> in the C locale, and the value of a
  run of decimal digits.
\<close>

definition isspace :: "byte \<Rightarrow> bool" where
  "isspace c = (c = 0x20 \<or> (0x09 \<le> c \<and> c \<le> 0x0d))"

definition isdigit :: "byte \<Rightarrow> bool" where
  "isdigit c = (0x30 \<le> c \<and> c \<le> 0x39)"

definition digval :: "byte list \<Rightarrow> nat" where
  "digval ds = foldl (\<lambda>acc d. acc * 10 + (unat d - 48)) 0 ds"

definition signlen :: "byte list \<Rightarrow> nat" where
  "signlen r = (case r of [] \<Rightarrow> 0 | c # _ \<Rightarrow> if c = 0x2d \<or> c = 0x2b then 1 else 0)"

definition negative :: "byte list \<Rightarrow> bool" where
  "negative r = (case r of [] \<Rightarrow> False | c # _ \<Rightarrow> c = 0x2d)"

text \<open>
  The C library's \<^verbatim>\<open>strtoul(p, &endptr, 10)\<close> on the bytes from \<^verbatim>\<open>p\<close> on, as the C
  standard describes it: white space, an optional sign, decimal digits. The result is
  the value and the number of bytes before \<^verbatim>\<open>endptr\<close>; with no digit nothing is
  consumed, and a value that does not fit gives \<^verbatim>\<open>ULONG_MAX\<close>.
\<close>

definition strtoul10 :: "byte list \<Rightarrow> 64 word \<times> nat" where
  "strtoul10 bs =
     (let r = dropWhile isspace bs;
          ds = takeWhile isdigit (drop (signlen r) r);
          v = digval ds
      in if ds = [] then (0, 0)
         else ((if 18446744073709551616 \<le> v then - 1 else if negative r then - of_nat v else of_nat v),
               length (takeWhile isspace bs) + signlen r + length ds))"

text \<open>
  \<^verbatim>\<open>linebuf\<close> and \<^verbatim>\<open>escbuf\<close> are declared together (\<^verbatim>\<open>unsigned char linebuf[1024],
  escbuf[1024];\<close>) and lie one after the other in \<^verbatim>\<open>wts\<close>: \<^verbatim>\<open>arrays\<close> is the block of
  2048 bytes they make, indexed from \<^verbatim>\<open>wts.linebuf\<close>, and \<^verbatim>\<open>memmove_arrays dst src n\<close>
  is \<^verbatim>\<open>memmove(wts.linebuf + dst, wts.linebuf + src, n)\<close> within that block: it copies
  as if through a temporary, so every byte read is one of the state before the call.
\<close>

definition arrays :: "wts \<Rightarrow> nat \<Rightarrow> byte" where
  "arrays s i = (if i < 1024 then linebuf s i else escbuf s (i - 1024))"

definition memmove_arrays :: "nat \<Rightarrow> nat \<Rightarrow> nat \<Rightarrow> wts \<Rightarrow> wts" where
  "memmove_arrays dst src n s =
     s\<lparr>linebuf := (\<lambda>i. if i < 1024 \<and> dst \<le> i \<and> i < dst + n
                        then arrays s (src + (i - dst)) else linebuf s i),
       escbuf := (\<lambda>i. if i < 1024 \<and> dst \<le> 1024 + i \<and> 1024 + i < dst + n
                       then arrays s (src + (1024 + i - dst)) else escbuf s i)\<rparr>"

text \<open>
  \<^verbatim>\<open>deletechrahead\<close>. \<^verbatim>\<open>strtoul\<close> stops at the final \<^verbatim>\<open>P\<close> at the latest, so it reads
  no further than \<^verbatim>\<open>lesc\<close>. \<^verbatim>\<open>cnt\<close> is an \<^verbatim>\<open>unsigned long\<close> of 64 bits: the comparison
  \<^verbatim>\<open>linesz <= linepos + cnt\<close> and the address \<^verbatim>\<open>linebuf + linepos + cnt\<close> are computed
  modulo \<^verbatim>\<open>2^64\<close> (for \<^verbatim>\<open>ESC [ - 1 P\<close>, \<^verbatim>\<open>cnt\<close> is \<^verbatim>\<open>ULONG_MAX\<close> and the source lies one
  byte before the destination), \<^verbatim>\<open>linesz -= cnt\<close> and the length \<^verbatim>\<open>linesz - linepos\<close>
  modulo \<^verbatim>\<open>2^32\<close>. Nothing keeps the copy within \<^verbatim>\<open>linebuf\<close>: it may read and write
  \<^verbatim>\<open>escbuf\<close>, which follows. What lies around the two arrays (the other members of
  \<^verbatim>\<open>wts\<close>, other objects) is not laid out here: the read of \<^verbatim>\<open>*lesc\<close> once \<^verbatim>\<open>escsz\<close>
  exceeds 1024, and a copy that leaves the block of the two arrays, end the run with
  \<^verbatim>\<open>OutOfBounds\<close>, where the compiled program goes on with whatever lies there.
\<close>

definition deletechrahead :: "wts \<Rightarrow> fault + wts" where
  "deletechrahead s =
     (if escsz s < 4 then Inr s
      else if 1024 < unat (escsz s) then Inl OutOfBounds
      else if escbuf s (unat (escsz s) - 1) \<noteq> 0x50 \<or> escbuf s 1 \<noteq> 0x5b then Inr s
      else
        let (cnt, used) = strtoul10 (map (escbuf s) [2..<unat (escsz s)]) in
        if 2 + used \<noteq> unat (escsz s) - 1 then Inr s
        else if (ucast (linesz s) :: 64 word) \<le> ucast (linepos s) + cnt then Inr s
        else
          let sz = linesz s - ucast cnt;
              n = unat (sz - linepos s);
              dst = unat (linepos s);
              src = unat (ucast (linepos s) + cnt :: 64 word)
          in if 2048 < src + n \<or> 2048 < dst + n then Inl OutOfBounds
             else Inr (memmove_arrays dst src n (s\<lparr>linesz := sz\<rparr>)))"

text \<open>
  The loop body of \<^verbatim>\<open>process_tty_out\<close> up to the label \<^verbatim>\<open>eol\<close>, in three parts:
  the final byte of \<^verbatim>\<open>ESC [\<close> (the inner switch), the lower-case finals, and the
  rest (from the test for \<^verbatim>\<open>ESC\<close> on). CR is 13, BS 8, BEL 7, ESC 27, LF 10.
\<close>

definition csi_upper :: "byte \<Rightarrow> wts \<Rightarrow> wts" where
  "csi_upper b s =
     (if b = 0x4b then s\<lparr>linesz := linepos s\<rparr>
      else if b = 0x41 then s\<lparr>linepos := (linepos s - ucast (swcol s)) mod 1024\<rparr>
      else if b = 0x43 then s\<lparr>linepos := linepos s + 1\<rparr>
      else s)"

definition tty_store :: "byte \<Rightarrow> wts \<Rightarrow> fault + wts" where
  "tty_store b s0 =
     (if b = 0x1b \<or> escsz s0 \<noteq> 0 then
        let s = (if b = 0x1b then s0\<lparr>escsz := 0\<rparr> else s0) in
        Inr (s\<lparr>escbuf := (escbuf s)(SAFEPTR 1024 (escsz s) 1 := b), escsz := escsz s + 1\<rparr>)
      else
        let s1 = (if b = 0x0a then s0\<lparr>linepos := linesz s0\<rparr> else s0) in
        if b = 7 then Inr s1
        else
          let s2 = s1\<lparr>linebuf := (linebuf s1)(SAFEPTR 1024 (linepos s1) 1 := b)\<rparr>;
              s3 = s2\<lparr>linepos := linepos s2 + 1\<rparr>;
              s4 = (if linesz s3 < linepos s3 then s3\<lparr>linesz := linepos s3\<rparr> else s3)
          in if b \<noteq> 0x0a \<and> linesz s4 < 1024 then Inr s4
             else if 1024 < linesz s4 then Inl (Errx ''linesz is too large, see dump'')
             else
               let s5 = (if logfd s4 \<noteq> 0
                         then fullwrite (logfd s4) (map (linebuf s4) [0..<unat (linesz s4)]) s4
                         else s4)
               in Inr (s5\<lparr>linesz := 0, linepos := 0\<rparr>))"

definition tty_lower :: "byte \<Rightarrow> wts \<Rightarrow> fault + wts" where
  "tty_lower b s0 =
     (if 0x61 \<le> b \<and> b \<le> 0x7a then
        andthen (consumeesc [0x1b, 0x5b, 0x3f, 0x31] s0) (\<lambda>(hit1, s1).
        if hit1 then Inr (s1\<lparr>appcursor := (b = 0x68)\<rparr>)
        else
          andthen (consumeesc [0x1b, 0x5b, 0x3f, 0x34, 0x37] s1) (\<lambda>(hit47, s2).
          andthen (if hit47 then Inr (True, s2)
                   else consumeesc [0x1b, 0x5b, 0x3f, 0x31, 0x30, 0x34, 0x37] s2) (\<lambda>(hit2, s3).
          if hit2 then
            Inr (putroutraw (if b = 0x68 then [0x5c, 0x73, 0x32] else [0x5c, 0x73, 0x31])
                   (s3\<lparr>altscren := (b = 0x68)\<rparr>))
          else
            andthen (consumeesc [0x1b, 0x5b, 0x3f, 0x31, 0x30, 0x34, 0x39] s3) (\<lambda>(hit3, s4).
            if hit3 then
              Inr (putroutraw
                     (if b = 0x68 then [0x5c, 0x73, 0x73, 0x5c, 0x73, 0x32, 0x5c, 0x63, 0x6c]
                      else [0x5c, 0x73, 0x31, 0x5c, 0x72, 0x73])
                     (s4\<lparr>altscren := (b = 0x68)\<rparr>))
            else if 1 < escsz s4 \<and> escbuf s4 1 = 0x5b then Inr (s4\<lparr>escsz := 0\<rparr>)
            else tty_store b s4))))
      else tty_store b s0)"

definition tty_core :: "byte \<Rightarrow> wts \<Rightarrow> fault + wts" where
  "tty_core b s0 =
     (if b = 0x0d then
        Inr (s0\<lparr>escsz := 0,
                linepos := (if swcol s0 \<noteq> 0
                            then linepos s0 - linepos s0 mod ucast (swcol s0) else 0)\<rparr>)
      else if b = 0x08 then
        Inr (if linepos s0 \<noteq> 0 then s0\<lparr>linepos := linepos s0 - 1\<rparr> else s0)
      else
        let s1 = (if b = 7 then s0\<lparr>escsz := 0\<rparr> else s0) in
        andthen (if 0x41 \<le> b \<and> b \<le> 0x5a then consumeesc [0x1b, 0x5b] s1 else Inr (False, s1))
          (\<lambda>(hit, s2). if hit then Inr (csi_upper b s2) else tty_lower b s2))"

text \<open>One pass of the loop: the body, then at \<^verbatim>\<open>eol\<close> \<^verbatim>\<open>deletechrahead\<close> and \<^verbatim>\<open>putrout\<close>.\<close>

definition tty_byte :: "byte \<Rightarrow> wts \<Rightarrow> fault + wts" where
  "tty_byte b s =
     andthen (tty_core b s) (\<lambda>s1. andthen (deletechrahead s1) (\<lambda>s2. Inr (putrout (uint b) s2)))"

fun tty_loop :: "byte list \<Rightarrow> wts \<Rightarrow> fault + wts" where
  "tty_loop [] s = Inr s"
| "tty_loop (b # bs) s = andthen (tty_byte b s) (tty_loop bs)"

text \<open>
  \<^verbatim>\<open>process_tty_out\<close> on the \<^verbatim>\<open>len\<close> bytes of \<^verbatim>\<open>buf\<close> (for a negative \<^verbatim>\<open>len\<close>, the
  bytes before the first NUL).
\<close>

definition process_tty_out :: "byte list \<Rightarrow> wts \<Rightarrow> fault + wts" where
  "process_tty_out buf s0 =
     (let s1 = s0\<lparr>rwoutbuf := []\<rparr>;
          s2 = (if rawlogfd s1 \<noteq> 0 then fullwrite (rawlogfd s1) buf s1 else s1)
      in andthen (tty_loop buf s2) (\<lambda>s3.
           let s4 = putroutraw [0x0a] s3
           in Inr (if rwout s4 then fullwrite 1 (rwoutbuf s4) s4 else s4)))"

section \<open>The keystroke translator: writetosubproccore\<close>

text \<open>
  \<^verbatim>\<open>finishkbuf\<close>: to a descriptor other than 1 the buffered key bytes go as they are;
  to descriptor 1 (the tests) they are printed as \<^verbatim>\<open>kbd[...]\<close> and a newline, a byte
  below space or a backslash as a backslash and three octal digits.
\<close>

definition octal3 :: "byte \<Rightarrow> byte list" where
  "octal3 b = [of_nat (48 + unat b div 64), of_nat (48 + unat b div 8 mod 8),
               of_nat (48 + unat b mod 8)]"

definition kbdshow :: "byte \<Rightarrow> byte list" where
  "kbdshow b = (if 0x20 \<le> b \<and> b \<noteq> 0x5c then [b] else 0x5c # octal3 b)"

definition finishkbuf :: "int \<Rightarrow> wts \<Rightarrow> wts" where
  "finishkbuf outfd s =
     (if kbuf s = [] then s
      else
        let s1 = (if outfd \<noteq> 1 then fullwrite outfd (kbuf s) s
                  else fullwrite 1 (bytes_of ''kbd['' @ concat (map kbdshow (kbuf s))
                                      @ bytes_of '']'' @ [0x0a]) s)
        in s1\<lparr>kbuf := []\<rparr>)"

definition addkeybyte :: "int \<Rightarrow> byte \<Rightarrow> wts \<Rightarrow> wts" where
  "addkeybyte outfd c s =
     (let s1 = (if length (kbuf s) = 8 then finishkbuf outfd s else s)
      in s1\<lparr>kbuf := kbuf s1 @ [c]\<rparr>)"

text \<open>
  One conversion \<^verbatim>\<open>%<width>hu\<close> of the C library's \<^verbatim>\<open>sscanf\<close>, as the C standard
  describes it: white space is skipped, then at most \<^verbatim>\<open>width\<close> bytes are read, an
  optional sign and decimal digits; without a digit the conversion fails. The result
  is the value as an \<^verbatim>\<open>unsigned short\<close> and the input left.
\<close>

definition scan_hu :: "nat \<Rightarrow> byte list \<Rightarrow> (16 word \<times> byte list) option" where
  "scan_hu width bs =
     (let r = dropWhile isspace bs;
          ds = takeWhile isdigit (take (width - signlen r) (drop (signlen r) r))
      in if ds = [] then None
         else Some ((if negative r then - of_nat (digval ds) else of_nat (digval ds)),
                    drop (signlen r + length ds) r))"

text \<open>
  \<^verbatim>\<open>sscanf(wts.winsize, "%4hu%4hu", &wts.swrow, &wts.swcol)\<close> and the assignment of
  its result to \<^verbatim>\<open>sendsigwin\<close>. The array has no terminating NUL; the byte after it
  in the struct is \<^verbatim>\<open>escp\<close>, which holds \<^verbatim>\<open>'w'\<close> during the call and ends every
  conversion.
\<close>

definition scan_winsize :: "wts \<Rightarrow> wts" where
  "scan_winsize s =
     (case scan_hu 4 (map (winsize s) [0..<8] @ [escp s]) of
        None \<Rightarrow> s\<lparr>sendsigwin := False\<rparr>
      | Some (r, rest) \<Rightarrow>
          (case scan_hu 4 rest of
             None \<Rightarrow> s\<lparr>sendsigwin := False, swrow := r\<rparr>
           | Some (c, rest2) \<Rightarrow> s\<lparr>sendsigwin := True, swrow := r, swcol := c\<rparr>))"

text \<open>
  The inner switch of case \<^verbatim>\<open>'1'\<close>, entered with \<^verbatim>\<open>escp\<close> already reset to 0:
  \<^verbatim>\<open>n\<close> 110, backslash 92, \<^verbatim>\<open>w\<close> 119, \<^verbatim>\<open>d\<close> 100, \<^verbatim>\<open>N\<close> 78, and the six cursor keys.
  An unknown escape is only reported on stderr.
\<close>

definition cursmvbyte :: "byte \<Rightarrow> byte" where
  "cursmvbyte byte =
     (if byte = 0x5e then 0x41 else if byte = 0x76 then 0x42
      else if byte = 0x3e then 0x43 else if byte = 0x3c then 0x44
      else if byte = 0x65 then 0x46 else if byte = 0x68 then 0x48 else 0)"

definition kbd_escaped :: "int \<Rightarrow> byte \<Rightarrow> wts \<Rightarrow> wts" where
  "kbd_escaped outfd byte s =
     (if byte = 0x6e then addkeybyte outfd 0x0a s
      else if byte = 0x5c then addkeybyte outfd 0x5c s
      else if byte = 0x77 then s\<lparr>wsi := 0, escp := 0x77\<rparr>
      else if byte = 0x64 then dump s
      else if byte = 0x4e then s
      else if cursmvbyte byte = 0 then s
      else addkeybyte outfd (cursmvbyte byte)
             (addkeybyte outfd (if appcursor s then 0x4f else 0x5b)
                (addkeybyte outfd 0x1b s)))"

text \<open>
  The body of the \<^verbatim>\<open>while\<close> loop for one byte. A store to \<^verbatim>\<open>winsize[wsi]\<close> with
  \<^verbatim>\<open>wsi\<close> beyond 7 would leave the array.
\<close>

definition kbd_byte :: "int \<Rightarrow> byte \<Rightarrow> wts \<Rightarrow> fault + wts" where
  "kbd_byte outfd byte s =
     (if byte = 0x0a then Inr s
      else if escp s = 0 then
        (if byte = 0x5c then Inr (s\<lparr>escp := 0x31\<rparr>) else Inr (addkeybyte outfd byte s))
      else if escp s = 0x31 then Inr (kbd_escaped outfd byte (s\<lparr>escp := 0\<rparr>))
      else if escp s = 0x77 then
        (if 8 \<le> unat (wsi s) then Inl OutOfBounds
         else
           let s1 = s\<lparr>winsize := (winsize s)(unat (wsi s) := byte), wsi := wsi s + 1\<rparr>
           in if wsi s1 \<noteq> 8 then Inr s1 else Inr ((scan_winsize s1)\<lparr>escp := 0\<rparr>))
      else Inl (Errx ''unknown escape''))"

fun kbd_loop :: "int \<Rightarrow> byte list \<Rightarrow> wts \<Rightarrow> fault + wts" where
  "kbd_loop outfd [] s = Inr s"
| "kbd_loop outfd (b # bs) s = andthen (kbd_byte outfd b s) (kbd_loop outfd bs)"

definition writetosubproccore :: "int \<Rightarrow> byte list \<Rightarrow> wts \<Rightarrow> fault + wts" where
  "writetosubproccore outfd buf s =
     (if kbuf s \<noteq> [] then Inl (Errx ''expected kbuf to be empty'')
      else andthen (kbd_loop outfd buf (s\<lparr>sendsigwin := False\<rparr>))
             (\<lambda>s1. Inr (finishkbuf outfd s1)))"




section \<open>The inbound frame decoder: inbound.c\<close>

text \<open>
  What a \<^verbatim>\<open>read\<close> on the non-blocking stdin can give: bytes (\<^verbatim>\<open>Redn bs\<close>: the bytes
  \<^verbatim>\<open>bs\<close> are there to be read; none stands for a return of 0), or \<^verbatim>\<open>-1\<close> with an
  \<^verbatim>\<open>errno\<close>, \<^verbatim>\<open>EIO\<close> standing for every value the code does not test for. The list
  \<^verbatim>\<open>stdin\<close> holds what the coming reads will meet, in order; an empty list is the
  closed stdin, where \<^verbatim>\<open>read\<close> returns 0.
\<close>

datatype errno = EAGAIN | EINTR | EWOULDBLOCK | EIO

datatype rd = Redn "byte list" | Fails errno

text \<open>
  The values of \<^verbatim>\<open>state\<close>: \<^verbatim>\<open>0\<close>, \<^verbatim>\<open>'P'\<close>, \<^verbatim>\<open>'L'\<close>, \<^verbatim>\<open>'X'\<close>, \<^verbatim>\<open>'Y'\<close>, \<^verbatim>\<open>'M'\<close>, \<^verbatim>\<open>'D'\<close>.
\<close>

datatype phase = S0 | SP | SL | SX | SY | SM | SD

text \<open>
  The statics of \<^verbatim>\<open>inbound.c\<close> (\<^verbatim>\<open>mask\<close> is named \<^verbatim>\<open>maskb\<close> here), then stdin, the
  bytes written to stdout and the bytes appended to the destination buffer.
  \<^verbatim>\<open>unmaskof\<close> and \<^verbatim>\<open>datpart\<close> are \<^verbatim>\<open>int\<close>s that never hold a negative value.
\<close>

record inbound =
  buf :: "nat \<Rightarrow> byte"
  maskb :: "nat \<Rightarrow> byte"
  bfi :: nat
  bfsz :: nat
  datalen :: "64 word"
  unmaskof :: nat
  state :: phase
  datpart :: nat
  stdin :: "rd list"
  stdout :: "byte list"
  dest :: "byte list"

definition inb0 :: inbound where
  "inb0 = \<lparr> buf = (\<lambda>_. 0), maskb = (\<lambda>_. 0), bfi = 0, bfsz = 0, datalen = 0, unmaskof = 0,
     state = S0, datpart = 0, stdin = [], stdout = [], dest = [] \<rparr>"

text \<open>
  Modelled from the spec: \<^verbatim>\<open>fdb_apnd\<close> and \<^verbatim>\<open>full_write\<close> are declared in
  \<^verbatim>\<open>outstreams.h\<close>, which is not among the sources. The decoder "appends their
  unmasked payload bytes to sink", and on a ping it "writes [0x8A, 0x00] to a fixed
  output sink (stdout)".
\<close>

definition fdb_apnd :: "byte list \<Rightarrow> inbound \<Rightarrow> inbound" where
  "fdb_apnd bs d = d\<lparr>dest := dest d @ bs\<rparr>"

definition full_write :: "byte list \<Rightarrow> inbound \<Rightarrow> inbound" where
  "full_write bs d = d\<lparr>stdout := stdout d @ bs\<rparr>"

definition pongmsg :: "byte list" where
  "pongmsg = [0x8a, 0x00]"

fun srcsize :: "rd list \<Rightarrow> nat" where
  "srcsize [] = 0"
| "srcsize (Redn bs # rest) = Suc (length bs + srcsize rest)"
| "srcsize (Fails e # rest) = Suc (srcsize rest)"

text \<open>
  The \<^verbatim>\<open>do ... while (bfsz < c)\<close> loop of \<^verbatim>\<open>mkeaval\<close>. A read takes at most
  \<^verbatim>\<open>sizeof(buf) - bfsz\<close> of the bytes that are there and leaves the others for the next
  read. The result \<^verbatim>\<open>False\<close> is \<^verbatim>\<open>return 0\<close>, \<^verbatim>\<open>True\<close> is \<^verbatim>\<open>return 1\<close>.
\<close>

function rdloop :: "nat \<Rightarrow> inbound \<Rightarrow> fault + bool \<times> inbound" where
  "rdloop c d =
     (case stdin d of
        [] \<Rightarrow> Inl Abort
      | Fails e # rest \<Rightarrow>
          if e = EAGAIN \<or> e = EINTR \<or> e = EWOULDBLOCK then Inr (False, d\<lparr>stdin := rest\<rparr>)
          else Inl Abort
      | Redn bs # rest \<Rightarrow>
          let redn = min (512 - bfsz d) (length bs) in
          if redn = 0 then Inl Abort
          else
            let d1 = d\<lparr>buf := (\<lambda>i. if bfsz d \<le> i \<and> i < bfsz d + redn
                                     then bs ! (i - bfsz d) else buf d i),
                       bfsz := bfsz d + redn,
                       stdin := (if redn < length bs then Redn (drop redn bs) # rest else rest)\<rparr>
            in if bfsz d1 < c then rdloop c d1 else Inr (True, d1))"
  by pat_completeness auto
termination
  by (relation "measure (\<lambda>(c, d). srcsize (stdin d))") auto

declare rdloop.simps [simp del]

text \<open>
  \<^verbatim>\<open>mkeaval\<close>. \<^verbatim>\<open>bfi\<close> never exceeds \<^verbatim>\<open>bfsz\<close> (lemma \<^verbatim>\<open>fit\<close> below), so the unsigned
  difference does not wrap.
\<close>

definition mkeaval :: "nat \<Rightarrow> inbound \<Rightarrow> fault + bool \<times> inbound" where
  "mkeaval c d =
     (let bleft = bfsz d - bfi d in
      if 512 < c then Inl Abort
      else if c \<le> bleft then Inr (True, d)
      else rdloop c (d\<lparr>buf := (\<lambda>i. if i < bleft then buf d (bfi d + i) else buf d i),
                       bfi := 0, bfsz := bleft\<rparr>))"

text \<open>\<^verbatim>\<open>forceinby\<close> returns the offset in \<^verbatim>\<open>buf\<close> of the \<^verbatim>\<open>c\<close> bytes, or nothing for 0.\<close>

definition forceinby :: "nat \<Rightarrow> inbound \<Rightarrow> fault + nat option \<times> inbound" where
  "forceinby c d =
     andthen (mkeaval c d) (\<lambda>(ok, d1).
       if \<not> ok then Inr (None, d1) else Inr (Some (bfi d1), d1\<lparr>bfi := bfi d1 + c\<rparr>))"

text \<open>
  \<^verbatim>\<open>memcpy\<close> into a \<^verbatim>\<open>uint16_t\<close> or \<^verbatim>\<open>uint32_t\<close> followed by \<^verbatim>\<open>ntohs\<close> or \<^verbatim>\<open>ntohl\<close>: the
  bytes in network order, whatever the host's order is.
\<close>

definition ntohs :: "byte \<Rightarrow> byte \<Rightarrow> 16 word" where
  "ntohs b0 b1 = push_bit 8 (ucast b0) OR ucast b1"

definition ntohl :: "byte \<Rightarrow> byte \<Rightarrow> byte \<Rightarrow> byte \<Rightarrow> 32 word" where
  "ntohl b0 b1 b2 b3 =
     push_bit 24 (ucast b0) OR push_bit 16 (ucast b1) OR push_bit 8 (ucast b2) OR ucast b3"

text \<open>The loop that unmasks the \<^verbatim>\<open>datpart\<close> bytes at \<^verbatim>\<open>bfc\<close>; it gives the bytes and \<^verbatim>\<open>unmaskof\<close>.\<close>

fun unmaskloop :: "(nat \<Rightarrow> byte) \<Rightarrow> nat \<Rightarrow> byte list \<Rightarrow> byte list \<times> nat" where
  "unmaskloop m uo [] = ([], uo)"
| "unmaskloop m uo (b # bs) =
     (let r = unmaskloop m ((uo + 1) AND 3) bs in ((b XOR m uo) # fst r, snd r))"

text \<open>
  The head of \<^verbatim>\<open>while (datalen)\<close>: either the next slice is sized and control reaches
  the label \<^verbatim>\<open>'D'\<close>, or the loop is left and \<^verbatim>\<open>state = 0\<close> ends the pass.
\<close>

definition while_datalen :: "inbound \<Rightarrow> inbound" where
  "while_datalen d =
     (if datalen d \<noteq> 0
      then d\<lparr>datpart := (if unat (datalen d) < 512 then unat (datalen d) else 512), state := SD\<rparr>
      else d\<lparr>state := S0\<rparr>)"

text \<open>
  The code at each label of the switch, up to the point where control reaches another
  label, the end of the switch or a \<^verbatim>\<open>return\<close>. Every label's code starts by storing
  the label in \<^verbatim>\<open>state\<close>, so control falling into a label is the next pass of the
  \<^verbatim>\<open>for\<close> loop entered at that label: the result \<^verbatim>\<open>True\<close> is that next pass, \<^verbatim>\<open>False\<close>
  is \<^verbatim>\<open>return\<close>.
\<close>

definition case_0 :: "inbound \<Rightarrow> fault + bool \<times> inbound" where
  "case_0 d =
     andthen (forceinby 1 (d\<lparr>state := S0\<rparr>)) (\<lambda>(bfc, d1).
       case bfc of
         None \<Rightarrow> Inr (False, d1)
       | Some p \<Rightarrow>
           let d2 = d1\<lparr>buf := (buf d1)(p := buf d1 p AND 0x7f)\<rparr>;
               opc = buf d2 p
           in if opc = 0 \<or> opc = 1 \<or> opc = 2 then Inr (True, d2\<lparr>state := SL\<rparr>)
              else if opc = 9 then Inr (True, d2\<lparr>state := SP\<rparr>)
              else Inr (True, d2\<lparr>state := S0\<rparr>))"

definition case_P :: "inbound \<Rightarrow> fault + bool \<times> inbound" where
  "case_P d = case_0 (full_write pongmsg d)"

definition case_L :: "inbound \<Rightarrow> fault + bool \<times> inbound" where
  "case_L d =
     andthen (forceinby 1 (d\<lparr>state := SL\<rparr>)) (\<lambda>(bfc, d1).
       case bfc of
         None \<Rightarrow> Inr (False, d1)
       | Some p \<Rightarrow>
           let d2 = d1\<lparr>datalen := ucast (buf d1 p AND 0x7f)\<rparr>
           in if buf d1 p AND 0x80 = 0 then Inl Abort
              else if datalen d2 = 126 then Inr (True, d2\<lparr>state := SX\<rparr>)
              else if datalen d2 = 127 then Inr (True, d2\<lparr>state := SY\<rparr>)
              else Inr (True, d2\<lparr>state := SM\<rparr>))"

definition case_X :: "inbound \<Rightarrow> fault + bool \<times> inbound" where
  "case_X d =
     andthen (forceinby 2 (d\<lparr>state := SX\<rparr>)) (\<lambda>(bfc, d1).
       case bfc of
         None \<Rightarrow> Inr (False, d1)
       | Some p \<Rightarrow>
           Inr (True, d1\<lparr>datalen := ucast (ntohs (buf d1 p) (buf d1 (p + 1))), state := SM\<rparr>))"

definition case_Y :: "inbound \<Rightarrow> fault + bool \<times> inbound" where
  "case_Y d =
     andthen (forceinby 8 (d\<lparr>state := SY\<rparr>)) (\<lambda>(bfc, d1).
       case bfc of
         None \<Rightarrow> Inr (False, d1)
       | Some p \<Rightarrow>
           let hi = ntohl (buf d1 p) (buf d1 (p + 1)) (buf d1 (p + 2)) (buf d1 (p + 3));
               lo = ntohl (buf d1 (p + 4)) (buf d1 (p + 5)) (buf d1 (p + 6)) (buf d1 (p + 7))
           in Inr (True, d1\<lparr>datalen := push_bit 32 (ucast hi) OR ucast lo, state := SM\<rparr>))"

definition case_M :: "inbound \<Rightarrow> fault + bool \<times> inbound" where
  "case_M d =
     andthen (forceinby 4 (d\<lparr>state := SM\<rparr>)) (\<lambda>(bfc, d1).
       case bfc of
         None \<Rightarrow> Inr (False, d1)
       | Some p \<Rightarrow>
           Inr (True, while_datalen
                  (d1\<lparr>maskb := (\<lambda>i. if i < 4 then buf d1 (p + i) else maskb d1 i),
                      unmaskof := 0\<rparr>)))"

definition case_D :: "inbound \<Rightarrow> fault + bool \<times> inbound" where
  "case_D d =
     andthen (forceinby (datpart d) (d\<lparr>state := SD\<rparr>)) (\<lambda>(bfc, d1).
       case bfc of
         None \<Rightarrow> Inr (False, d1)
       | Some p \<Rightarrow>
           let r = unmaskloop (maskb d1) (unmaskof d1) (map (buf d1) [p..<p + datpart d1]);
               d2 = d1\<lparr>buf := (\<lambda>i. if p \<le> i \<and> i < p + datpart d1
                                       then fst r ! (i - p) else buf d1 i),
                         unmaskof := snd r\<rparr>;
               d3 = fdb_apnd (fst r) d2;
               d4 = d3\<lparr>datalen := datalen d3 - of_nat (datpart d3)\<rparr>
           in Inr (True, while_datalen d4))"

definition frame_step :: "inbound \<Rightarrow> fault + bool \<times> inbound" where
  "frame_step d =
     (case state d of
        S0 \<Rightarrow> case_0 d | SP \<Rightarrow> case_P d | SL \<Rightarrow> case_L d | SX \<Rightarrow> case_X d
      | SY \<Rightarrow> case_Y d | SM \<Rightarrow> case_M d | SD \<Rightarrow> case_D d)"

text \<open>
  What a pass cannot increase: the bytes buffered and still to be read, counted twice,
  and one more for a pass at \<^verbatim>\<open>'D'\<close> that asks for no byte.
\<close>

definition avail :: "inbound \<Rightarrow> nat" where
  "avail d = bfsz d - bfi d + srcsize (stdin d)"

definition passes_left :: "inbound \<Rightarrow> nat" where
  "passes_left d = 2 * avail d + (if state d = SD \<and> datpart d = 0 then 1 else 0)"

text \<open>
  The \<^verbatim>\<open>for (;;) switch (state)\<close> loop. Each pass that does not return takes bytes from
  the buffer or from stdin, or leaves \<^verbatim>\<open>'D'\<close> with a slice sized anew, so the loop ends.
\<close>

function frames_loop :: "inbound \<Rightarrow> fault + inbound" where
  "frames_loop d =
     (case frame_step d of
        Inl e \<Rightarrow> Inl e
      | Inr (again, d1) \<Rightarrow> if again then frames_loop d1 else Inr d1)"
  by pat_completeness auto
termination
proof (relation "measure passes_left")
  show "wf (measure passes_left)" by simp
next
  fix d :: inbound and r again d1
  assume step: "frame_step d = Inr r" "(again, d1) = r" "again"
  have rd: "rdloop c x = Inr (ok, y) \<Longrightarrow>
      bfi y = bfi x \<and> bfsz y + srcsize (stdin y) \<le> bfsz x + srcsize (stdin x)
      \<and> (ok \<longrightarrow> c \<le> bfsz y) \<and> state y = state x \<and> datpart y = datpart x" for c x ok y
  proof (induction c x arbitrary: ok y rule: rdloop.induct)
    case (1 c x)
    show ?case
    proof (cases rule: list.exhaust[of "stdin x"])
      case Nil
      then show ?thesis using "1.prems" by (simp add: rdloop.simps[of c x])
    next
      case (Cons a rest)
      show ?thesis
      proof (cases a)
        case (Fails e)
        then show ?thesis using "1.prems" Cons
          by (auto simp: rdloop.simps[of c x] split: if_splits)
      next
        case (Redn bs)
        define redn where "redn = min (512 - bfsz x) (length bs)"
        define x1 where "x1 = x\<lparr>buf := (\<lambda>i. if bfsz x \<le> i \<and> i < bfsz x + redn
                                     then bs ! (i - bfsz x) else buf x i),
                       bfsz := bfsz x + redn,
                       stdin := (if redn < length bs then Redn (drop redn bs) # rest else rest)\<rparr>"
        have nz: "redn \<noteq> 0"
          using "1.prems" Cons Redn by (auto simp: rdloop.simps[of c x] redn_def Let_def split: if_splits)
        have sz: "bfsz x1 + srcsize (stdin x1) \<le> bfsz x + srcsize (stdin x)"
          using Cons Redn nz by (auto simp: x1_def redn_def)
        have r: "rdloop c x = (if bfsz x1 < c then rdloop c x1 else Inr (True, x1))"
          using Cons Redn nz by (simp add: rdloop.simps[of c x] x1_def redn_def Let_def)
        show ?thesis
        proof (cases rule: case_split[of "bfsz x1 < c"])
          case True
          then have "rdloop c x1 = Inr (ok, y)" using r "1.prems" by simp
          then have "bfi y = bfi x1 \<and> bfsz y + srcsize (stdin y) \<le> bfsz x1 + srcsize (stdin x1)
              \<and> (ok \<longrightarrow> c \<le> bfsz y) \<and> state y = state x1 \<and> datpart y = datpart x1"
            using "1.IH"[of a rest bs redn x1 ok y] Cons Redn nz True
            by (simp add: x1_def redn_def)
          then show ?thesis using sz by (simp add: x1_def)
        next
          case False
          then have "y = x1 \<and> ok" using r "1.prems" by auto
          then show ?thesis using sz False by (simp add: x1_def)
        qed
      qed
    qed
  qed
  have fi: "forceinby c x = Inr (Some p, y) \<Longrightarrow>
      avail y + c \<le> avail x \<and> state y = state x \<and> datpart y = datpart x" for c x p y
  proof -
    assume a: "forceinby c x = Inr (Some p, y)"
    show ?thesis
    proof (cases rule: case_split[of "c \<le> bfsz x - bfi x"])
      case True
      then show ?thesis using a
        by (auto simp: forceinby_def mkeaval_def Let_def avail_def andthen_def split: if_splits)
    next
      case False
      define x0 where "x0 = x\<lparr>buf := (\<lambda>i. if i < bfsz x - bfi x then buf x (bfi x + i) else buf x i),
                       bfi := 0, bfsz := bfsz x - bfi x\<rparr>"
      from a False obtain z where z: "rdloop c x0 = Inr (True, z)" "y = z\<lparr>bfi := bfi z + c\<rparr>"
        by (auto simp: forceinby_def mkeaval_def Let_def x0_def andthen_def
            split: if_splits sum.splits prod.splits)
      from rd[OF z(1)] show ?thesis
        using z(2) by (auto simp: avail_def x0_def)
    qed
  qed
  have pong: "avail (full_write bs x) = avail x" for bs x
    by (simp add: avail_def full_write_def)
  have wd: "avail (while_datalen x) = avail x
      \<and> \<not> (state (while_datalen x) = SD \<and> datpart (while_datalen x) = 0)" for x
    by (auto simp: while_datalen_def avail_def unat_gt_0)
  have stp: "avail x = avail y \<Longrightarrow> avail (x\<lparr>state := v\<rparr>) = avail y" for x y v
    by (simp add: avail_def)
  from step have s: "frame_step d = Inr (True, d1)" by simp
  show "(d1, d) \<in> measure passes_left"
  proof (cases rule: phase.exhaust[of "state d"])
    case S0
    then show ?thesis using s
      by (auto simp: frame_step_def case_0_def andthen_def passes_left_def avail_def Let_def
          split: sum.splits prod.splits option.splits if_splits dest!: fi)
  next
    case SP
    then show ?thesis using s
      by (auto simp: frame_step_def case_P_def case_0_def andthen_def passes_left_def avail_def
          Let_def full_write_def
          split: sum.splits prod.splits option.splits if_splits dest!: fi)
  next
    case SL
    then show ?thesis using s
      by (auto simp: frame_step_def case_L_def andthen_def passes_left_def avail_def Let_def
          split: sum.splits prod.splits option.splits if_splits dest!: fi)
  next
    case SX
    then show ?thesis using s
      by (auto simp: frame_step_def case_X_def andthen_def passes_left_def avail_def Let_def
          split: sum.splits prod.splits option.splits if_splits dest!: fi)
  next
    case SY
    then show ?thesis using s
      by (auto simp: frame_step_def case_Y_def andthen_def passes_left_def avail_def Let_def
          split: sum.splits prod.splits option.splits if_splits dest!: fi)
  next
    case SM
    then obtain p y where y: "forceinby 4 (d\<lparr>state := SM\<rparr>) = Inr (Some p, y)"
        "d1 = while_datalen (y\<lparr>maskb := (\<lambda>i. if i < 4 then buf y (p + i) else maskb y i),
                      unmaskof := 0\<rparr>)"
      using s
      by (auto simp: frame_step_def case_M_def andthen_def
          split: sum.splits prod.splits option.splits)
    have "avail d1 = avail y"
      using wd[of "y\<lparr>maskb := (\<lambda>i. if i < 4 then buf y (p + i) else maskb y i), unmaskof := 0\<rparr>"] y(2)
      by (simp add: avail_def)
    moreover have "\<not> (state d1 = SD \<and> datpart d1 = 0)"
      using wd[of "y\<lparr>maskb := (\<lambda>i. if i < 4 then buf y (p + i) else maskb y i), unmaskof := 0\<rparr>"] y(2)
      by simp
    moreover have "avail y + 4 \<le> avail d"
      using fi[OF y(1)] by (simp add: avail_def)
    ultimately show ?thesis by (auto simp: passes_left_def)
  next
    case SD
    then obtain p y z where y: "forceinby (datpart d) (d\<lparr>state := SD\<rparr>) = Inr (Some p, y)"
        "d1 = while_datalen z" "avail z = avail y"
      using s
      by (auto simp: frame_step_def case_D_def andthen_def Let_def fdb_apnd_def avail_def
          split: sum.splits prod.splits option.splits)
    have a: "avail d1 = avail y" "\<not> (state d1 = SD \<and> datpart d1 = 0)"
      using wd[of z] y by simp_all
    have "avail y + datpart d \<le> avail d"
      using fi[OF y(1)] by (simp add: avail_def)
    then show ?thesis using a SD by (auto simp: passes_left_def)
  qed
qed


declare frames_loop.simps [simp del]

text \<open>\<^verbatim>\<open>fwrd_inbound_frames\<close>; the destination buffer is the field \<^verbatim>\<open>dest\<close>.\<close>

definition fwrd_inbound_frames :: "inbound \<Rightarrow> fault + inbound" where
  "fwrd_inbound_frames d =
     (if state d = S0 \<and> bfi d \<noteq> bfsz d then Inl Abort else frames_loop d)"

text \<open>
  The calls that \<^verbatim>\<open>attach_main\<close> makes, one each time \<^verbatim>\<open>select\<close> reports stdin
  readable. A call is given by what its reads meet: the byte chunks of its successful
  reads, then the \<^verbatim>\<open>errno\<close> of the read that fails.
\<close>

fun calls :: "(byte list list \<times> errno) list \<Rightarrow> inbound \<Rightarrow> fault + inbound" where
  "calls [] d = Inr d"
| "calls ((reads, e) # cs) d =
     andthen (fwrd_inbound_frames (d\<lparr>stdin := map Redn reads @ [Fails e]\<rparr>)) (calls cs)"

section \<open>Reference notions\<close>

text \<open>The number that four decimal digit bytes write, as an \<^verbatim>\<open>unsigned short\<close>.\<close>

definition dec4 :: "byte \<Rightarrow> byte \<Rightarrow> byte \<Rightarrow> byte \<Rightarrow> 16 word" where
  "dec4 a b c d =
     of_nat (1000 * (unat a - 48) + 100 * (unat b - 48) + 10 * (unat c - 48) + (unat d - 48))"

text \<open>
  What a call of \<^verbatim>\<open>writetosubproccore\<close> leaves for \<^verbatim>\<open>process_kbd\<close> and the pty:
  \<^verbatim>\<open>sendsigwin\<close>, \<^verbatim>\<open>swrow\<close>, \<^verbatim>\<open>swcol\<close> and everything written to the descriptor.
\<close>

definition call_result :: "int \<Rightarrow> fault + wts \<Rightarrow> (bool \<times> 16 word \<times> 16 word \<times> byte list) option" where
  "call_result fd r =
     (case r of Inl e \<Rightarrow> None | Inr s \<Rightarrow> Some (sendsigwin s, swrow s, swcol s, written s fd))"


text \<open>
  The input of the line-editing test of \<^verbatim>\<open>test_main\<close>:
  \<^verbatim>\<open>"abcdef\b\033[K\b\033[K\b\033[Kxyz\r\n"\<close>; and what a call has written to a
  descriptor.
\<close>

definition tty_test :: "byte list" where
  "tty_test = bytes_of ''abcdef''
     @ [0x08, 0x1b, 0x5b, 0x4b, 0x08, 0x1b, 0x5b, 0x4b, 0x08, 0x1b, 0x5b, 0x4b]
     @ bytes_of ''xyz'' @ [0x0d, 0x0a]"

definition log_of :: "int \<Rightarrow> fault + wts \<Rightarrow> byte list option" where
  "log_of fd r = (case r of Inl e \<Rightarrow> None | Inr s \<Rightarrow> Some (written s fd))"

text \<open>What a run leaves in \<^verbatim>\<open>escsz\<close> and \<^verbatim>\<open>escbuf[0]\<close>, and in \<^verbatim>\<open>linesz\<close>.\<close>

definition esc_view_of :: "fault + wts \<Rightarrow> (32 word \<times> byte) option" where
  "esc_view_of r = (case r of Inl e \<Rightarrow> None | Inr s \<Rightarrow> Some (escsz s, escbuf s 0))"

definition linesz_after :: "fault + wts \<Rightarrow> 32 word option" where
  "linesz_after r = (case r of Inl e \<Rightarrow> None | Inr s \<Rightarrow> Some (linesz s))"

text \<open>
  For the decoder: the \<^verbatim>\<open>errno\<close> values after which \<^verbatim>\<open>mkeaval\<close> returns 0; a stdin
  whose reads give bytes until one fails with such an \<^verbatim>\<open>errno\<close>; what is left of
  stdin after that read; and the bytes read before it.
\<close>

definition wouldblock :: "errno \<Rightarrow> bool" where
  "wouldblock e \<longleftrightarrow> e = EAGAIN \<or> e = EINTR \<or> e = EWOULDBLOCK"

fun src_ok :: "rd list \<Rightarrow> bool" where
  "src_ok [] = False"
| "src_ok (Redn bs # rest) = (bs \<noteq> [] \<and> src_ok rest)"
| "src_ok (Fails e # rest) = wouldblock e"

fun cut :: "rd list \<Rightarrow> rd list" where
  "cut [] = []"
| "cut (Redn bs # rest) = cut rest"
| "cut (Fails e # rest) = rest"

fun srcbytes :: "rd list \<Rightarrow> byte list" where
  "srcbytes [] = []"
| "srcbytes (Redn bs # rest) = bs @ srcbytes rest"
| "srcbytes (Fails e # rest) = []"

text \<open>
  The bytes buffered and not yet consumed, and the relation the two indices keep.
\<close>

definition window :: "inbound \<Rightarrow> byte list" where
  "window d = map (buf d) [bfi d..<bfsz d]"

definition fit :: "inbound \<Rightarrow> bool" where
  "fit d \<longleftrightarrow> bfi d \<le> bfsz d \<and> bfsz d \<le> 512"

text \<open>
  The switch as a table, for the proofs: the number of bytes the code at a label asks
  \<^verbatim>\<open>forceinby\<close> for, what it does before that call (\<^verbatim>\<open>'P'\<close> writes the pong and goes
  on as label 0), and what it does to the statics other than the buffer once it has
  the bytes \<^verbatim>\<open>bs\<close>.
\<close>

definition need :: "inbound \<Rightarrow> nat" where
  "need d = (case state d of S0 \<Rightarrow> 1 | SP \<Rightarrow> 1 | SL \<Rightarrow> 1 | SX \<Rightarrow> 2 | SY \<Rightarrow> 8 | SM \<Rightarrow> 4
             | SD \<Rightarrow> datpart d)"

definition enter :: "inbound \<Rightarrow> inbound" where
  "enter d = (if state d = SP then (full_write pongmsg d)\<lparr>state := S0\<rparr> else d)"

definition advance :: "byte list \<Rightarrow> inbound \<Rightarrow> fault + inbound" where
  "advance bs d =
     (case state d of
        S0 \<Rightarrow>
          let opc = bs ! 0 AND 0x7f
          in Inr (d\<lparr>state := (if opc = 0 \<or> opc = 1 \<or> opc = 2 then SL
                              else if opc = 9 then SP else S0)\<rparr>)
      | SP \<Rightarrow> Inr d
      | SL \<Rightarrow>
          let n = ucast (bs ! 0 AND 0x7f)
          in if bs ! 0 AND 0x80 = 0 then Inl Abort
             else Inr (d\<lparr>datalen := n,
                         state := (if n = 126 then SX else if n = 127 then SY else SM)\<rparr>)
      | SX \<Rightarrow> Inr (d\<lparr>datalen := ucast (ntohs (bs ! 0) (bs ! 1)), state := SM\<rparr>)
      | SY \<Rightarrow>
          Inr (d\<lparr>datalen := push_bit 32 (ucast (ntohl (bs ! 0) (bs ! 1) (bs ! 2) (bs ! 3)))
                              OR ucast (ntohl (bs ! 4) (bs ! 5) (bs ! 6) (bs ! 7)),
                  state := SM\<rparr>)
      | SM \<Rightarrow>
          Inr (while_datalen (d\<lparr>maskb := (\<lambda>i. if i < 4 then bs ! i else maskb d i),
                               unmaskof := 0\<rparr>))
      | SD \<Rightarrow>
          let r = unmaskloop (maskb d) (unmaskof d) bs
          in Inr (while_datalen
                    ((fdb_apnd (fst r) (d\<lparr>unmaskof := snd r\<rparr>))
                       \<lparr>datalen := datalen d - of_nat (datpart d)\<rparr>)))"

text \<open>
  The decoder run on a byte string that is there as a whole, with no buffer and no
  reads: it applies the table until the bytes left are fewer than the next label asks
  for. \<^verbatim>\<open>core_of\<close> forgets the buffer and stdin of a state.
\<close>

definition core_of :: "inbound \<Rightarrow> inbound" where
  "core_of d = d\<lparr>buf := (\<lambda>_. 0), bfi := 0, bfsz := 0, stdin := []\<rparr>"

function pure_run :: "inbound \<Rightarrow> byte list \<Rightarrow> fault + inbound" where
  "pure_run d bs =
     (let d0 = enter d; n = need d0
      in if length bs < n then Inr d0
         else case advance (take n bs) d0 of
                Inl e \<Rightarrow> Inl e
              | Inr d1 \<Rightarrow> pure_run d1 (drop n bs))"
  by pat_completeness auto
termination
proof (relation "measure (\<lambda>(d, bs). 2 * length bs + (if state d = SD \<and> datpart d = 0 then 1 else 0))")
  show "wf (measure (\<lambda>(d, bs). 2 * length bs + (if state d = SD \<and> datpart d = 0 then 1 else 0)))"
    by simp
next
  fix d :: inbound and bs :: "byte list" and d0 n d1
  assume a: "d0 = enter d" "n = need d0" "\<not> length bs < n" "advance (take n bs) d0 = Inr d1"
  have wd: "\<not> (state (while_datalen x) = SD \<and> datpart (while_datalen x) = 0)" for x
    by (auto simp: while_datalen_def unat_gt_0)
  show "((d1, drop n bs), (d, bs)) \<in>
        measure (\<lambda>(d, bs). 2 * length bs + (if state d = SD \<and> datpart d = 0 then 1 else 0))"
  proof (cases rule: case_split[of "n = 0"])
    case False
    then show ?thesis using a(3) by auto
  next
    case True
    then have sd: "state d0 = SD" "datpart d0 = 0"
      using a(2) by (auto simp: need_def split: phase.splits)
    then have "state d = SD \<and> datpart d = 0"
      using a(1) by (auto simp: enter_def full_write_def split: if_splits)
    moreover have "\<not> (state d1 = SD \<and> datpart d1 = 0)"
      using a(4) sd wd by (auto simp: advance_def Let_def)
    ultimately show ?thesis using True by auto
  qed
qed

declare pure_run.simps [simp del]

text \<open>
  The bytes a state has still to decode: those buffered, those this call will read,
  and those of later calls.
\<close>

definition pend :: "inbound \<Rightarrow> byte list \<Rightarrow> byte list" where
  "pend d future = window d @ srcbytes (stdin d) @ future"

text \<open>
  A frame as it is on the wire: the first byte (FIN, RSV1 to RSV3 and the 4-bit
  opcode), the second byte (the MASK bit and the 7-bit length field), the extended
  length (no byte, or 2 or 8 bytes in network order for the fields 126 and 127), the
  masking key and the payload as sent. Which frames are data frames is said by
  \<^verbatim>\<open>data_frame\<close> (as the code takes them) and \<^verbatim>\<open>spec_data_frame\<close> (as the spec words
  them) below. \<^verbatim>\<open>be_nat\<close> is the number a byte string writes in network (big-endian)
  order.
\<close>

record frame =
  fhdr :: byte
  flenb :: byte
  fext :: "byte list"
  fkey :: "byte list"
  fwire :: "byte list"

definition be_nat :: "byte list \<Rightarrow> nat" where
  "be_nat bs = foldl (\<lambda>a b. 256 * a + unat b) 0 bs"

text \<open>
  \<^verbatim>\<open>header_ok\<close>: the header of a masked data frame that the code takes as one. The
  code clears FIN only (\<^verbatim>\<open>*bfc &= 0x7f\<close>) before it compares the first byte with 0, 1
  and 2, so RSV1 to RSV3 have to be clear: this is narrower than the spec, which has
  the RSV bits ignored. The MASK bit is set and the extended length has the number of
  bytes the 7-bit field asks for. \<^verbatim>\<open>length_of\<close> is the payload length the header
  announces, in the spec's words: a 7-bit length \<^verbatim>\<open>n<126\<close> is the payload length,
  \<^verbatim>\<open>n==126\<close> means the next 2 bytes big-endian, \<^verbatim>\<open>n==127\<close> the next 8 bytes big-endian.
\<close>

definition header_ok :: "byte \<Rightarrow> byte \<Rightarrow> byte list \<Rightarrow> bool" where
  "header_ok h l ext \<longleftrightarrow>
     (h AND 0x7f = 0 \<or> h AND 0x7f = 1 \<or> h AND 0x7f = 2) \<and> l AND 0x80 \<noteq> 0
     \<and> length ext = (if l AND 0x7f = 126 then 2 else if l AND 0x7f = 127 then 8 else 0)"

definition length_of :: "byte \<Rightarrow> byte list \<Rightarrow> nat" where
  "length_of l ext =
     (if l AND 0x7f = 126 \<or> l AND 0x7f = 127 then be_nat ext else unat (l AND 0x7f))"

text \<open>
  \<^verbatim>\<open>data_frame\<close>: a masked data frame with RSV1 to RSV3 clear (\<^verbatim>\<open>header_ok\<close>), a key of
  4 bytes and a payload of the announced length. \<^verbatim>\<open>spec_data_frame\<close>: a masked data
  frame in the spec's words, where the opcode (the low 4 bits of the first byte) is
  continuation, text or binary and "FIN and RSV bits are ignored".
\<close>

definition data_frame :: "frame \<Rightarrow> bool" where
  "data_frame f \<longleftrightarrow> header_ok (fhdr f) (flenb f) (fext f) \<and> length (fkey f) = 4
     \<and> length_of (flenb f) (fext f) = length (fwire f)"

definition spec_data_frame :: "frame \<Rightarrow> bool" where
  "spec_data_frame f \<longleftrightarrow>
     (fhdr f AND 0x0f = 0 \<or> fhdr f AND 0x0f = 1 \<or> fhdr f AND 0x0f = 2)
     \<and> flenb f AND 0x80 \<noteq> 0 \<and> length (fkey f) = 4
     \<and> length (fext f) = (if flenb f AND 0x7f = 126 then 2
                           else if flenb f AND 0x7f = 127 then 8 else 0)
     \<and> length_of (flenb f) (fext f) = length (fwire f)"

definition wire :: "frame \<Rightarrow> byte list" where
  "wire f = fhdr f # flenb f # fext f @ fkey f @ fwire f"

text \<open>
  Unmasking, in the spec's words: each payload byte XORed with \<^verbatim>\<open>mask[i mod 4]\<close>,
  \<^verbatim>\<open>i\<close> being the byte's offset in the payload.
\<close>

definition unmask :: "byte list \<Rightarrow> byte list \<Rightarrow> byte list" where
  "unmask key bs = map (\<lambda>i. bs ! i XOR key ! (i mod 4)) [0..<length bs]"

definition payloads :: "frame list \<Rightarrow> byte list" where
  "payloads fs = concat (map (\<lambda>f. unmask (fkey f) (fwire f)) fs)"

text \<open>The calls' reads are well formed: no read of no byte, and each call ends on a would-block.\<close>

definition calls_ok :: "(byte list list \<times> errno) list \<Rightarrow> bool" where
  "calls_ok cs \<longleftrightarrow> (\<forall>c \<in> set cs. wouldblock (snd c) \<and> [] \<notin> set (fst c))"

definition bytes_read :: "(byte list list \<times> errno) list \<Rightarrow> byte list" where
  "bytes_read cs = concat (concat (map fst cs))"

definition dest_of :: "fault + inbound \<Rightarrow> byte list option" where
  "dest_of r = (case r of Inl e \<Rightarrow> None | Inr d \<Rightarrow> Some (dest d))"

definition len_view :: "fault + inbound \<Rightarrow> (phase \<times> nat) option" where
  "len_view r = (case r of Inl e \<Rightarrow> None | Inr d \<Rightarrow> Some (state d, unat (datalen d)))"

text \<open>The decoder between two calls: waiting for bytes it does not have, the buffer within bounds.\<close>

definition resting :: "inbound \<Rightarrow> bool" where
  "resting d \<longleftrightarrow> fit d \<and> datpart d \<le> 512 \<and> length (window d) < need d \<and> state d \<noteq> SP"




section \<open>Properties\<close>

subsection \<open>Sequencing\<close>

lemma andthen_Inr [simp]: "andthen (Inr x) f = f x"
  by (simp add: andthen_def)

lemma andthen_Inl [simp]: "andthen (Inl e) f = Inl e"
  by (simp add: andthen_def)

subsection \<open>putrout\<close>

lemma hexdig_low: "n < 16 \<Longrightarrow> word_of_int (hexdig (int n)) = lowerhex n"
  apply (subgoal_tac "n \<in> set [0..<16]")
  apply (simp only: upt_conv_Cons)
   apply (auto simp: hexdig_def lowerhex_def)[1]
  apply simp
  done

lemma and15: "(v::int) AND 0x0f = v mod 16"
proof -
  have "(0x0f::int) = mask 4" by (simp add: mask_eq_exp_minus_1)
  then have "v AND 0x0f = take_bit 4 v" by (simp add: take_bit_eq_mask)
  then show ?thesis by (simp add: take_bit_int_def)
qed

lemma and255: "(v::int) AND 0xff = v mod 256"
proof -
  have "(0xff::int) = mask 8" by (simp add: mask_eq_exp_minus_1)
  then have "v AND 0xff = take_bit 8 v" by (simp add: take_bit_eq_mask)
  then show ?thesis by (simp add: take_bit_int_def)
qed

lemma hexdig_mod16: "hexdig v = hexdig (v mod 16)"
  by (simp add: hexdig_def and15)

lemma hexdig_hi: "word_of_int (hexdig (drop_bit 4 (uint (b::byte)))) = lowerhex (unat b div 16)"
proof -
  have "unat b < 2 ^ LENGTH(8)" by (rule unsigned_less)
  then have "unat b < 256" by simp
  then have lt: "unat b div 16 < 16" by simp
  have "drop_bit 4 (uint b) = int (unat b div 16)"
    by (simp add: drop_bit_eq_div zdiv_int)
  then show ?thesis using hexdig_low[OF lt] by simp
qed

lemma hexdig_lo: "word_of_int (hexdig (uint (b::byte))) = lowerhex (unat b mod 16)"
proof -
  have lt: "unat b mod 16 < 16" by simp
  have "uint b mod 16 = int (unat b mod 16)"
    by (simp add: zmod_int)
  then show ?thesis using hexdig_low[OF lt] hexdig_mod16[of "uint b"] by simp
qed

lemma uint_byte_mask: "uint (b::byte) AND 0xff = uint b"
proof -
  have "uint b < 256" using uint_lt2p[of b] by simp
  then show ?thesis by (simp add: and255)
qed

lemma printable_uint:
  "printable b \<longleftrightarrow> \<not> (uint b = 92 \<or> uint b < 32 \<or> uint b > 126)"
  by (auto simp: printable_def word_le_def word_uint_eq_iff)

text \<open>
  C3. For every byte \<^verbatim>\<open>b\<close> passed to \<^verbatim>\<open>putrout\<close>: when \<^verbatim>\<open>b\<close> lies in 0x20..0x7E and
  is not the backslash, exactly the byte \<^verbatim>\<open>b\<close> is appended to the client-bound buffer;
  for every other byte exactly three bytes are appended, a backslash and the two
  lowercase hexadecimal digits of \<^verbatim>\<open>b\<close>.
\<close>

theorem putrout_encoding:
  "rwoutbuf (putrout (uint b) s) = rwoutbuf s @ (if printable b then [b] else 0x5c # hh b)"
  by (simp add: putrout_def Let_def uint_byte_mask printable_uint hexdig_hi hexdig_lo hh_def
      verifyroutcap_def)

theorem putrout_encoding_witness:
  "rwoutbuf (putrout (uint (0x41 :: byte)) wts0) = [0x41]
   \<and> rwoutbuf (putrout (uint (0x09 :: byte)) wts0) = [0x5c, 0x30, 0x39]
   \<and> rwoutbuf (putrout (uint (0x5c :: byte)) wts0) = [0x5c, 0x35, 0x63]
   \<and> rwoutbuf (putrout (uint (0xff :: byte)) wts0) = [0x5c, 0x66, 0x66]"
  using putrout_encoding[of "0x41" wts0] putrout_encoding[of "0x09" wts0]
    putrout_encoding[of "0x5c" wts0] putrout_encoding[of "0xff" wts0]
  by (simp add: printable_def hh_def lowerhex_def wts0_def)

subsection \<open>The keystroke translator\<close>

lemma kbd_loop_append:
  "kbd_loop outfd (xs @ ys) s = andthen (kbd_loop outfd xs s) (kbd_loop outfd ys)"
proof (induction xs arbitrary: s)
  case Nil
  show ?case by simp
next
  case (Cons x xs)
  show ?case
  proof (cases rule: sum.exhaust[of "kbd_byte outfd x s"])
    case (Inl e)
    then show ?thesis by simp
  next
    case (Inr s1)
    then show ?thesis using Cons.IH[of s1] by simp
  qed
qed

lemma kbd_byte_newline: "kbd_byte outfd 0x0a s = Inr s"
  by (simp add: kbd_byte_def)

text \<open>
  C10. A newline byte (0x0a) in the client input is dropped in every parser mode: the
  pass of the loop for it returns the state as it was, whatever \<^verbatim>\<open>escp\<close>, \<^verbatim>\<open>wsi\<close> and
  the rest of the state hold, so nothing is written for it; and taking the byte out of
  the input, wherever it stands, changes neither the loop's nor the call's result.
\<close>

theorem newline_dropped:
  "kbd_byte outfd 0x0a s = Inr s
   \<and> kbd_loop outfd (xs @ 0x0a # ys) s = kbd_loop outfd (xs @ ys) s
   \<and> writetosubproccore outfd (xs @ 0x0a # ys) s = writetosubproccore outfd (xs @ ys) s"
proof -
  have "kbd_loop outfd (0x0a # ys) = kbd_loop outfd ys"
    by (rule ext) (simp add: kbd_byte_newline)
  then have loop: "kbd_loop outfd (xs @ 0x0a # ys) t = kbd_loop outfd (xs @ ys) t" for t
    by (simp add: kbd_loop_append)
  show ?thesis
    by (simp add: kbd_byte_newline loop writetosubproccore_def)
qed

lemma isdigit_not_space: "isdigit d \<Longrightarrow> \<not> isspace d"
  by (auto simp: isdigit_def isspace_def word_le_def word_uint_eq_iff)

lemma isdigit_not_sign: "isdigit d \<Longrightarrow> d \<noteq> 0x2d \<and> d \<noteq> 0x2b"
  by (auto simp: isdigit_def word_le_def)

lemma scan_hu_4digits:
  assumes "isdigit a" "isdigit b" "isdigit c" "isdigit d"
  shows "scan_hu 4 (a # b # c # d # rest) = Some (dec4 a b c d, rest)"
  using assms isdigit_not_sign[of a]
  by (simp add: scan_hu_def isdigit_not_space signlen_def negative_def digval_def dec4_def Let_def)

lemma scan_winsize_digits:
  assumes "isdigit (winsize s 0)" "isdigit (winsize s 1)" "isdigit (winsize s 2)"
    "isdigit (winsize s 3)" "isdigit (winsize s 4)" "isdigit (winsize s 5)"
    "isdigit (winsize s 6)" "isdigit (winsize s 7)"
  shows "scan_winsize s = s\<lparr>sendsigwin := True,
      swrow := dec4 (winsize s 0) (winsize s 1) (winsize s 2) (winsize s 3),
      swcol := dec4 (winsize s 4) (winsize s 5) (winsize s 6) (winsize s 7)\<rparr>"
proof -
  have idx: "[0..<8] = [0, 1, 2, 3, 4, 5, 6, 7]"
    by (simp add: upt_conv_Cons)
  show ?thesis
    using assms by (simp add: scan_winsize_def idx scan_hu_4digits)
qed

lemma kbd_loop_winsize:
  assumes "isdigit d1" "isdigit d2" "isdigit d3" "isdigit d4"
    "isdigit d5" "isdigit d6" "isdigit d7" "isdigit d8" "escp s = 0"
  shows "kbd_loop outfd [0x5c, 0x77, d1, d2, d3, d4, d5, d6, d7, d8] s =
         Inr (s\<lparr>sendsigwin := True, swrow := dec4 d1 d2 d3 d4, swcol := dec4 d5 d6 d7 d8,
                wsi := 8, escp := 0,
                winsize := (winsize s)(0 := d1, 1 := d2, 2 := d3, 3 := d4,
                                        4 := d5, 5 := d6, 6 := d7, 7 := d8)\<rparr>)"
proof -
  have nl: "d1 \<noteq> 0x0a" "d2 \<noteq> 0x0a" "d3 \<noteq> 0x0a" "d4 \<noteq> 0x0a"
    "d5 \<noteq> 0x0a" "d6 \<noteq> 0x0a" "d7 \<noteq> 0x0a" "d8 \<noteq> 0x0a"
    using assms by (auto simp: isdigit_def word_le_def)
  show ?thesis
    using assms nl
    by (simp add: kbd_byte_def kbd_escaped_def scan_winsize_digits)
qed

theorem newline_dropped_witness:
  "kbd_byte 5 0x0a (wts0\<lparr>escp := 0x77, wsi := 3\<rparr>) = Inr (wts0\<lparr>escp := 0x77, wsi := 3\<rparr>)
   \<and> kbd_loop 5 [0x5c, 0x0a, 0x6e] wts0 = kbd_loop 5 [0x5c, 0x6e] wts0
   \<and> writetosubproccore 5 [0x68, 0x0a, 0x69] wts0 = writetosubproccore 5 [0x68, 0x69] wts0"
  using newline_dropped[of 5 "wts0\<lparr>escp := 0x77, wsi := 3\<rparr>" "[]" "[]"]
    newline_dropped[of 5 wts0 "[0x5c]" "[0x6e]"] newline_dropped[of 5 wts0 "[0x68]" "[0x69]"]
  by simp

text \<open>
  C5. For every eight decimal digits \<^verbatim>\<open>d1..d8\<close> after the escape \<^verbatim>\<open>\w\<close>, read in the
  raw parser mode: the window-size parse completes with \<^verbatim>\<open>sendsigwin\<close> set, \<^verbatim>\<open>swrow\<close>
  the number \<^verbatim>\<open>d1..d4\<close> write and \<^verbatim>\<open>swcol\<close> the number \<^verbatim>\<open>d5..d8\<close> write. The state
  returned differs from the one entered only in these three fields and in the
  accumulator (\<^verbatim>\<open>winsize\<close>, \<^verbatim>\<open>wsi\<close>), so nothing is written to the pty. The first
  conjunct is the loop within a call, the second a whole call.
\<close>

theorem winsize_parse:
  assumes "isdigit d1" "isdigit d2" "isdigit d3" "isdigit d4"
    "isdigit d5" "isdigit d6" "isdigit d7" "isdigit d8" "escp s = 0"
  shows "kbd_loop outfd [0x5c, 0x77, d1, d2, d3, d4, d5, d6, d7, d8] s =
         Inr (s\<lparr>sendsigwin := True, swrow := dec4 d1 d2 d3 d4, swcol := dec4 d5 d6 d7 d8,
                wsi := 8, escp := 0,
                winsize := (winsize s)(0 := d1, 1 := d2, 2 := d3, 3 := d4,
                                        4 := d5, 5 := d6, 6 := d7, 7 := d8)\<rparr>)
       \<and> (kbuf s = [] \<longrightarrow>
          writetosubproccore outfd [0x5c, 0x77, d1, d2, d3, d4, d5, d6, d7, d8] s =
          Inr (s\<lparr>sendsigwin := True, swrow := dec4 d1 d2 d3 d4, swcol := dec4 d5 d6 d7 d8,
                wsi := 8, escp := 0,
                winsize := (winsize s)(0 := d1, 1 := d2, 2 := d3, 3 := d4,
                                        4 := d5, 5 := d6, 6 := d7, 7 := d8)\<rparr>))"
  using assms kbd_loop_winsize[of d1 d2 d3 d4 d5 d6 d7 d8 s outfd]
    kbd_loop_winsize[of d1 d2 d3 d4 d5 d6 d7 d8 "s\<lparr>sendsigwin := False\<rparr>" outfd]
  by (simp add: writetosubproccore_def finishkbuf_def)

text \<open>The input \<^verbatim>\<open>\w00990011\<close> from the zeroed state: 99 rows, 11 columns, nothing written.\<close>

theorem winsize_parse_witness:
  "call_result 5
     (writetosubproccore 5 [0x5c, 0x77, 0x30, 0x30, 0x39, 0x39, 0x30, 0x30, 0x31, 0x31] wts0)
   = Some (True, 99, 11, [])"
  using winsize_parse[of "0x30" "0x30" "0x39" "0x39" "0x30" "0x30" "0x31" "0x31" wts0 5]
  by (simp add: isdigit_def wts0_def dec4_def call_result_def)















subsection \<open>The terminal filter\<close>

lemma tty_loop_append:
  "tty_loop (xs @ ys) s = andthen (tty_loop xs s) (tty_loop ys)"
proof (induction xs arbitrary: s)
  case Nil
  show ?case by simp
next
  case (Cons x xs)
  show ?case
  proof (cases rule: sum.exhaust[of "tty_byte x s"])
    case (Inl e)
    then show ?thesis by simp
  next
    case (Inr s1)
    then show ?thesis using Cons.IH[of s1] by simp
  qed
qed

lemma csi_K_core:
  "andthen (andthen (tty_core 0x1b s) (tty_core 0x5b)) (tty_core 0x4b) =
     Inr (s\<lparr>escbuf := (escbuf s)(0 := 0x1b, 1 := 0x5b), escsz := 0, linesz := linepos s\<rparr>)"
  by (simp add: tty_core_def tty_lower_def tty_store_def consumeesc_def csi_upper_def
      SAFEPTR_def upt_conv_Cons)

text \<open>
  C8. From the zeroed state with a text-log descriptor \<^verbatim>\<open>fd\<close> set, the input
  \<^verbatim>\<open>"abcdef" BS ESC[K BS ESC[K BS ESC[K "xyz" CR LF\<close> makes \<^verbatim>\<open>process_tty_out\<close> write
  the line \<^verbatim>\<open>abcxyz\<close>, ended by its newline, to the log and nothing else. A BS moves
  \<^verbatim>\<open>linepos\<close> back by one (when it is not 0), and \<^verbatim>\<open>ESC [ K\<close> sets \<^verbatim>\<open>linesz\<close> to
  \<^verbatim>\<open>linepos\<close>.
\<close>

theorem text_log_line:
  "(fd \<noteq> 0 \<longrightarrow>
      log_of fd (process_tty_out tty_test (wts0\<lparr>logfd := fd\<rparr>)) = Some (bytes_of ''abcxyz'' @ [0x0a]))
   \<and> tty_core 0x08 s = Inr (if linepos s \<noteq> 0 then s\<lparr>linepos := linepos s - 1\<rparr> else s)
   \<and> andthen (andthen (tty_core 0x1b s) (tty_core 0x5b)) (tty_core 0x4b) =
       Inr (s\<lparr>escbuf := (escbuf s)(0 := 0x1b, 1 := 0x5b), escsz := 0, linesz := linepos s\<rparr>)"
proof -
  have "log_of fd (process_tty_out tty_test (wts0\<lparr>logfd := fd\<rparr>)) = Some (bytes_of ''abcxyz'' @ [0x0a])"
    if "fd \<noteq> 0"
    using that
    by (simp add: log_of_def process_tty_out_def tty_test_def bytes_of_def wts0_def
        tty_byte_def tty_core_def tty_lower_def tty_store_def consumeesc_def csi_upper_def
        deletechrahead_def putrout_def fullwrite_def putroutraw_def verifyroutcap_def
        SAFEPTR_def Let_def hexdig_def upt_conv_Cons)
  moreover have "tty_core 0x08 s = Inr (if linepos s \<noteq> 0 then s\<lparr>linepos := linepos s - 1\<rparr> else s)"
    by (simp add: tty_core_def)
  ultimately show ?thesis
    using csi_K_core[of s] by simp
qed

theorem text_log_line_witness:
  "log_of 5 (process_tty_out tty_test (wts0\<lparr>logfd := 5\<rparr>))
     = Some [0x61, 0x62, 0x63, 0x78, 0x79, 0x7a, 0x0a]"
  using text_log_line[of 5 wts0] by (simp add: bytes_of_def)

lemma esc_restart:
  "tty_core 0x1b s = Inr (s\<lparr>escbuf := (escbuf s)(0 := 0x1b), escsz := 1\<rparr>)"
  by (simp add: tty_core_def tty_lower_def tty_store_def SAFEPTR_def)

lemma digit_pass:
  assumes "1 \<le> unat (escsz s)" "unat (escsz s) < 1024"
  shows "\<exists>s1. tty_byte 0x30 s = Inr s1 \<and> escsz s1 = escsz s + 1 \<and> escbuf s1 0 = escbuf s 0"
proof -
  have nz: "escsz s \<noteq> 0" using assms(1) by auto
  have u: "unat (escsz s + 1) = unat (escsz s) + 1"
    using assms(2) unat_add_lem[of "escsz s" 1] by simp
  have core: "tty_core 0x30 s =
      Inr (s\<lparr>escbuf := (escbuf s)(unat (escsz s) := 0x30), escsz := escsz s + 1\<rparr>)"
    using nz assms(2)
    by (simp add: tty_core_def tty_lower_def tty_store_def SAFEPTR_def)
  have del: "deletechrahead (s\<lparr>escbuf := (escbuf s)(unat (escsz s) := 0x30), escsz := escsz s + 1\<rparr>) =
      Inr (s\<lparr>escbuf := (escbuf s)(unat (escsz s) := 0x30), escsz := escsz s + 1\<rparr>)"
    using assms(2) by (simp add: deletechrahead_def u)
  show ?thesis
    using assms(1) core del
    by (simp add: tty_byte_def putrout_def Let_def verifyroutcap_def)
qed

lemma digit_run:
  "1 \<le> unat (escsz s) \<Longrightarrow> unat (escsz s) + n \<le> 1024 \<Longrightarrow>
   \<exists>s1. tty_loop (replicate n 0x30) s = Inr s1 \<and> escsz s1 = escsz s + of_nat n
        \<and> escbuf s1 0 = escbuf s 0"
proof (induction n arbitrary: s)
  case 0
  then show ?case by simp
next
  case (Suc n)
  from Suc.prems obtain t where t: "tty_byte 0x30 s = Inr t" "escsz t = escsz s + 1"
      "escbuf t 0 = escbuf s 0"
    using digit_pass[of s] by auto
  have u: "unat (escsz s + 1) = unat (escsz s) + 1"
    using Suc.prems unat_add_lem[of "escsz s" 1] by simp
  from Suc.IH[of t] Suc.prems t u obtain s1 where
    "tty_loop (replicate n 0x30) t = Inr s1" "escsz s1 = escsz t + of_nat n"
    "escbuf s1 0 = escbuf t 0"
    by auto
  then show ?case using t by simp
qed

lemma esc_pass:
  "\<exists>s1. tty_byte 0x1b s = Inr s1 \<and> escsz s1 = 1 \<and> escbuf s1 0 = 0x1b"
  by (simp add: tty_byte_def tty_core_def tty_lower_def tty_store_def SAFEPTR_def
      deletechrahead_def putrout_def Let_def verifyroutcap_def)

text \<open>
  The store into \<^verbatim>\<open>escbuf\<close> goes through \<^verbatim>\<open>SAFEPTR\<close>, which wraps the index modulo
  1024, and \<^verbatim>\<open>escsz\<close> is never bounded: after ESC and 1023 further bytes of an
  unfinished sequence \<^verbatim>\<open>escsz\<close> is 1024, and the next byte (here the digit 0) is stored
  at index 0, over the ESC. At the label \<^verbatim>\<open>eol\<close> of that pass \<^verbatim>\<open>escsz\<close> is 1025 and
  \<^verbatim>\<open>escbuf[0]\<close> is the digit.
\<close>

lemma esc_head_overwritten:
  "esc_view_of (andthen (tty_loop (0x1b # replicate 1023 0x30) wts0) (tty_core 0x30))
     = Some (1025, 0x30)"
proof -
  obtain t where t: "tty_byte 0x1b wts0 = Inr t" "escsz t = 1" "escbuf t 0 = 0x1b"
    using esc_pass[of wts0] by auto
  obtain u where u: "tty_loop (replicate 1023 0x30) t = Inr u" "escsz u = escsz t + of_nat 1023"
    using digit_run[of t 1023] t by auto
  have sz: "escsz u = 1024" using u t by simp
  have "tty_core 0x30 u = Inr (u\<lparr>escbuf := (escbuf u)(0 := 0x30), escsz := 1025\<rparr>)"
    using sz by (simp add: tty_core_def tty_lower_def tty_store_def SAFEPTR_def)
  then show ?thesis using t u by (simp add: esc_view_of_def)
qed

lemma x_pass:
  assumes "escsz s = 0" "linepos s = linesz s" "unat (linesz s) < 1023"
  shows "\<exists>s1. tty_byte 0x78 s = Inr s1 \<and> escsz s1 = 0 \<and> linepos s1 = linesz s + 1
     \<and> linesz s1 = linesz s + 1 \<and> linebuf s1 = (linebuf s)(unat (linesz s) := 0x78)"
proof -
  have u: "unat (linesz s + 1) = unat (linesz s) + 1"
    using assms(3) unat_add_lem[of "linesz s" 1] by simp
  have lt: "linesz s < linesz s + 1" "linesz s + 1 < 1024"
    using u assms(3) by (simp_all add: word_less_nat_alt)
  have "tty_store 0x78 s = Inr (s\<lparr>linebuf := (linebuf s)(unat (linesz s) := 0x78),
      linepos := linesz s + 1, linesz := linesz s + 1\<rparr>)"
    using assms lt by (simp add: tty_store_def SAFEPTR_def Let_def)
  then have "tty_core 0x78 s = Inr (s\<lparr>linebuf := (linebuf s)(unat (linesz s) := 0x78),
      linepos := linesz s + 1, linesz := linesz s + 1\<rparr>)"
    using assms(1) by (simp add: tty_core_def tty_lower_def consumeesc_def)
  then show ?thesis
    using assms(1)
    by (simp add: tty_byte_def deletechrahead_def putrout_def Let_def verifyroutcap_def)
qed

lemma x_run:
  "escsz s = 0 \<Longrightarrow> linepos s = linesz s \<Longrightarrow> unat (linesz s) + n \<le> 1023 \<Longrightarrow>
   \<exists>s1. tty_loop (replicate n 0x78) s = Inr s1 \<and> escsz s1 = 0
        \<and> linepos s1 = linesz s + of_nat n \<and> linesz s1 = linesz s + of_nat n
        \<and> (\<forall>i. linebuf s1 i = (if unat (linesz s) \<le> i \<and> i < unat (linesz s) + n
                                then 0x78 else linebuf s i))"
proof (induction n arbitrary: s)
  case 0
  then show ?case by auto
next
  case (Suc n)
  from Suc.prems obtain t where t: "tty_byte 0x78 s = Inr t" "escsz t = 0"
      "linepos t = linesz s + 1" "linesz t = linesz s + 1"
      "linebuf t = (linebuf s)(unat (linesz s) := 0x78)"
    using x_pass[of s] by auto
  have u: "unat (linesz s + 1) = unat (linesz s) + 1"
    using Suc.prems unat_add_lem[of "linesz s" 1] by simp
  from Suc.IH[of t] Suc.prems t u obtain s1 where s1:
    "tty_loop (replicate n 0x78) t = Inr s1" "escsz s1 = 0"
    "linepos s1 = linesz t + of_nat n" "linesz s1 = linesz t + of_nat n"
    "\<forall>i. linebuf s1 i = (if unat (linesz t) \<le> i \<and> i < unat (linesz t) + n
                            then 0x78 else linebuf t i)"
    by auto
  have "\<forall>i. linebuf s1 i = (if unat (linesz s) \<le> i \<and> i < unat (linesz s) + Suc n
                                then 0x78 else linebuf s i)"
    using s1(5) t(4,5) u by auto
  then show ?case using t s1 by simp
qed

lemma strtoul_minus_one: "strtoul10 [0x2d, 0x31, 0x50] = (- 1, 2)"
  by (simp add: strtoul10_def isspace_def isdigit_def digval_def signlen_def negative_def Let_def)

lemma esc4:
  "\<exists>t. tty_loop [0x1b, 0x5b, 0x2d, 0x31] s = Inr t \<and> escsz t = 4
      \<and> escbuf t 1 = 0x5b \<and> escbuf t 2 = 0x2d \<and> escbuf t 3 = 0x31
      \<and> linebuf t = linebuf s \<and> linepos t = linepos s \<and> linesz t = linesz s"
  by (simp add: tty_byte_def tty_core_def tty_lower_def tty_store_def SAFEPTR_def
      consumeesc_def deletechrahead_def putrout_def Let_def verifyroutcap_def)


lemma ucast_minus_one: "(ucast (- 1 :: 64 word) :: 32 word) = - 1"
  by (rule bit_word_eqI) (simp add: bit_simps)

lemma delete_minus_one:
  assumes "escsz q = 5" "escbuf q 1 = 0x5b" "escbuf q 2 = 0x2d" "escbuf q 3 = 0x31"
    "escbuf q 4 = 0x50" "linepos q = 1023" "linesz q = 1023 \<or> linesz q = 1024"
  shows "\<exists>r. deletechrahead q = Inr r \<and> escsz r = 5 \<and> linesz r = linesz q + 1
     \<and> linebuf r 1022 = linebuf q 1022 \<and> linebuf r 1023 = linebuf q 1022
     \<and> escbuf r 0 = (if linesz q = 1024 then linebuf q 1023 else escbuf q 0)"
proof -
  have m: "map (escbuf q) [2..<5] = [0x2d, 0x31, 0x50]"
    using assms(3,4,5) by (simp add: upt_conv_Cons)
  show ?thesis using assms(7)
  proof
    assume l: "linesz q = 1023"
    then show ?thesis using assms(1,2,5,6) m
      by (simp add: deletechrahead_def strtoul_minus_one ucast_minus_one Let_def
          memmove_arrays_def arrays_def)
  next
    assume l: "linesz q = 1024"
    then show ?thesis using assms(1,2,5,6) m
      by (simp add: deletechrahead_def strtoul_minus_one ucast_minus_one Let_def
          memmove_arrays_def arrays_def)
  qed
qed


lemma minus_one_pass:
  assumes "linepos s = 1023" "linesz s = 1023 \<or> linesz s = 1024"
  shows "\<exists>s1. tty_loop [0x1b, 0x5b, 0x2d, 0x31, 0x50] s = Inr s1 \<and> escsz s1 = 5
     \<and> linepos s1 = 1023 \<and> linesz s1 = linesz s + 1
     \<and> linebuf s1 1022 = linebuf s 1022 \<and> linebuf s1 1023 = linebuf s 1022
     \<and> (linesz s = 1024 \<longrightarrow> escbuf s1 0 = linebuf s 1023)"
proof -
  obtain t where t: "tty_loop [0x1b, 0x5b, 0x2d, 0x31] s = Inr t" "escsz t = 4"
      "escbuf t 1 = 0x5b" "escbuf t 2 = 0x2d" "escbuf t 3 = 0x31"
      "linebuf t = linebuf s" "linepos t = linepos s" "linesz t = linesz s"
    using esc4[of s] by auto
  define q where "q = t\<lparr>escbuf := (escbuf t)(4 := 0x50), escsz := 5\<rparr>"
  have core: "tty_core 0x50 t = Inr q"
    using t(2) by (simp add: tty_core_def tty_lower_def tty_store_def SAFEPTR_def
        consumeesc_def q_def)
  have qf: "escsz q = 5" "escbuf q 1 = 0x5b" "escbuf q 2 = 0x2d" "escbuf q 3 = 0x31"
      "escbuf q 4 = 0x50" "linepos q = 1023" "linesz q = 1023 \<or> linesz q = 1024"
      "linebuf q = linebuf s" "linesz q = linesz s"
    using t assms by (simp_all add: q_def)
  from delete_minus_one[OF qf(1-7)] obtain r where r: "deletechrahead q = Inr r" "escsz r = 5"
      "linesz r = linesz q + 1" "linebuf r 1022 = linebuf q 1022"
      "linebuf r 1023 = linebuf q 1022"
      "escbuf r 0 = (if linesz q = 1024 then linebuf q 1023 else escbuf q 0)"
    by blast
  have lp: "linepos r = 1023"
    using r(1) qf by (auto simp: deletechrahead_def Let_def memmove_arrays_def
        split: if_splits prod.splits)
  have "tty_byte 0x50 t = Inr (putrout (uint (0x50::byte)) r)"
    using core r(1) by (simp add: tty_byte_def)
  moreover have "tty_loop ([0x1b, 0x5b, 0x2d, 0x31] @ [0x50]) s
      = andthen (tty_loop [0x1b, 0x5b, 0x2d, 0x31] s) (tty_loop [0x50])"
    by (rule tty_loop_append)
  ultimately have "tty_loop [0x1b, 0x5b, 0x2d, 0x31, 0x50] s = Inr (putrout (uint (0x50::byte)) r)"
    using t(1) by simp
  then show ?thesis using r lp qf(8,9)
    by (simp add: putrout_def Let_def verifyroutcap_def)
qed

text \<open>
  C9 does not hold of the code. An ESC byte does discard what \<^verbatim>\<open>escbuf\<close> holds and
  becomes its first byte (lemmas \<^verbatim>\<open>esc_restart\<close> and \<^verbatim>\<open>esc_pass\<close>), but the first byte does
  not stay: \<^verbatim>\<open>deletechrahead\<close> copies with \<^verbatim>\<open>memmove\<close> up to the new \<^verbatim>\<open>linesz\<close>, which
  nothing keeps within \<^verbatim>\<open>linebuf\<close>, and \<^verbatim>\<open>escbuf\<close> follows \<^verbatim>\<open>linebuf\<close> in \<^verbatim>\<open>wts\<close>. From
  the zeroed state, 1023 bytes \<^verbatim>\<open>x\<close> bring \<^verbatim>\<open>linepos\<close> and \<^verbatim>\<open>linesz\<close> to 1023. A first
  \<^verbatim>\<open>ESC [ - 1 P\<close> has \<^verbatim>\<open>cnt = ULONG_MAX\<close>: the test \<^verbatim>\<open>linesz <= linepos + cnt\<close> compares
  1023 with 1022, \<^verbatim>\<open>linesz\<close> becomes 1024 and one byte is copied from index 1022 to
  1023. A second \<^verbatim>\<open>ESC [ - 1 P\<close> makes \<^verbatim>\<open>linesz\<close> 1025 and copies two bytes from index
  1022 to 1023: the second lands on \<^verbatim>\<open>linebuf[1024]\<close>, which is \<^verbatim>\<open>escbuf[0]\<close>. The call
  returns with \<^verbatim>\<open>escsz = 5\<close> and \<^verbatim>\<open>x\<close> in \<^verbatim>\<open>escbuf[0]\<close>.
\<close>

theorem esc_head_lost:
  "esc_view_of (process_tty_out
      (replicate 1023 0x78 @ [0x1b, 0x5b, 0x2d, 0x31, 0x50] @ [0x1b, 0x5b, 0x2d, 0x31, 0x50]) wts0)
     = Some (5, 0x78)"
proof -
  define s0 where "s0 = wts0\<lparr>rwoutbuf := []\<rparr>"
  have z: "escsz s0 = 0" "linepos s0 = linesz s0" "linesz s0 = 0" "rawlogfd wts0 = 0"
    "rwout wts0 = False"
    by (simp_all add: s0_def wts0_def)
  obtain u where u: "tty_loop (replicate 1023 0x78) s0 = Inr u" "escsz u = 0"
      "linepos u = linesz s0 + of_nat 1023" "linesz u = linesz s0 + of_nat 1023"
      "\<forall>i. linebuf u i = (if unat (linesz s0) \<le> i \<and> i < unat (linesz s0) + 1023
                              then 0x78 else linebuf s0 i)"
    using x_run[of s0 1023] z by auto
  have u2: "linepos u = 1023" "linesz u = 1023" "linebuf u 1022 = 0x78"
    using u z by simp_all
  obtain v where v: "tty_loop [0x1b, 0x5b, 0x2d, 0x31, 0x50] u = Inr v" "escsz v = 5"
      "linepos v = 1023" "linesz v = linesz u + 1" "linebuf v 1022 = linebuf u 1022"
      "linebuf v 1023 = linebuf u 1022"
    using minus_one_pass[of u] u2 by auto
  have v2: "linesz v = 1024" "linebuf v 1023 = 0x78" using v u2 by simp_all
  obtain w where w: "tty_loop [0x1b, 0x5b, 0x2d, 0x31, 0x50] v = Inr w" "escsz w = 5"
      "linesz v = 1024 \<longrightarrow> escbuf w 0 = linebuf v 1023"
    using minus_one_pass[of v] v v2 by auto
  have run: "tty_loop (replicate 1023 0x78 @ [0x1b, 0x5b, 0x2d, 0x31, 0x50]
                 @ [0x1b, 0x5b, 0x2d, 0x31, 0x50]) s0 = Inr w"
    using u(1) v(1) w(1) tty_loop_append[of "replicate 1023 0x78"
        "[0x1b, 0x5b, 0x2d, 0x31, 0x50] @ [0x1b, 0x5b, 0x2d, 0x31, 0x50]" s0]
      tty_loop_append[of "[0x1b, 0x5b, 0x2d, 0x31, 0x50]" "[0x1b, 0x5b, 0x2d, 0x31, 0x50]" u]
    by (simp del: tty_loop.simps)
  have "process_tty_out (replicate 1023 0x78 @ [0x1b, 0x5b, 0x2d, 0x31, 0x50]
                 @ [0x1b, 0x5b, 0x2d, 0x31, 0x50]) wts0
      = Inr (let s4 = putroutraw [0x0a] w in if rwout s4 then fullwrite 1 (rwoutbuf s4) s4 else s4)"
    unfolding process_tty_out_def Let_def using run z(4) by (simp add: s0_def del: tty_loop.simps)
  then show ?thesis using w v2
    by (simp add: esc_view_of_def putroutraw_def verifyroutcap_def fullwrite_def Let_def)
qed

lemma right_pass:
  "\<exists>s1. tty_loop [0x1b, 0x5b, 0x43] s = Inr s1 \<and> linepos s1 = linepos s + 1
        \<and> linesz s1 = linesz s"
  by (simp add: tty_byte_def tty_core_def tty_lower_def tty_store_def SAFEPTR_def consumeesc_def
      csi_upper_def deletechrahead_def putrout_def Let_def verifyroutcap_def upt_conv_Cons)

lemma right_run:
  "\<exists>s1. tty_loop (concat (replicate n [0x1b, 0x5b, 0x43])) s = Inr s1
        \<and> linepos s1 = linepos s + of_nat n \<and> linesz s1 = linesz s"
proof (induction n arbitrary: s)
  case 0
  then show ?case by simp
next
  case (Suc n)
  obtain t where t: "tty_loop [0x1b, 0x5b, 0x43] s = Inr t" "linepos t = linepos s + 1"
      "linesz t = linesz s"
    using right_pass[of s] by auto
  obtain s1 where s1: "tty_loop (concat (replicate n [0x1b, 0x5b, 0x43])) t = Inr s1"
      "linepos s1 = linepos t + of_nat n" "linesz s1 = linesz t"
    using Suc.IH[of t] by auto
  have "tty_loop (concat (replicate (Suc n) [0x1b, 0x5b, 0x43])) s =
        andthen (tty_loop [0x1b, 0x5b, 0x43] s) (tty_loop (concat (replicate n [0x1b, 0x5b, 0x43])))"
    using tty_loop_append[of "[0x1b, 0x5b, 0x43]" "concat (replicate n [0x1b, 0x5b, 0x43])" s]
    by simp
  then show ?case using t s1 by simp
qed

lemma erase_pass:
  "\<exists>s1. tty_loop [0x1b, 0x5b, 0x4b] s = Inr s1 \<and> linesz s1 = linepos s"
  by (simp add: tty_byte_def tty_core_def tty_lower_def tty_store_def SAFEPTR_def consumeesc_def
      csi_upper_def deletechrahead_def putrout_def Let_def verifyroutcap_def upt_conv_Cons)

text \<open>
  C2 does not hold of the code. \<^verbatim>\<open>ESC [ C\<close> increments \<^verbatim>\<open>linepos\<close> without a bound and
  \<^verbatim>\<open>ESC [ K\<close> copies \<^verbatim>\<open>linepos\<close> into \<^verbatim>\<open>linesz\<close> without the check that the store of a
  byte makes: after 1025 times \<^verbatim>\<open>ESC [ C\<close> and one \<^verbatim>\<open>ESC [ K\<close> from the zeroed state the
  call returns with \<^verbatim>\<open>linesz\<close> at 1025, above the 1024 bytes of \<^verbatim>\<open>linebuf\<close>.
\<close>

theorem linesz_exceeds_linebuf:
  "linesz_after (process_tty_out (concat (replicate 1025 [0x1b, 0x5b, 0x43]) @ [0x1b, 0x5b, 0x4b]) wts0)
     = Some 1025"
proof -
  obtain t where t: "tty_loop (concat (replicate 1025 [0x1b, 0x5b, 0x43])) (wts0\<lparr>rwoutbuf := []\<rparr>) = Inr t"
      "linepos t = linepos (wts0\<lparr>rwoutbuf := []\<rparr>) + of_nat 1025"
    using right_run[of 1025 "wts0\<lparr>rwoutbuf := []\<rparr>"] by auto
  obtain u where u: "tty_loop [0x1b, 0x5b, 0x4b] t = Inr u" "linesz u = linepos t"
    using erase_pass[of t] by auto
  have lp: "linepos t = 1025" using t(2) by (simp add: wts0_def)
  have "rawlogfd wts0 = 0" by (simp add: wts0_def)
  then show ?thesis
    using t(1) u lp
    by (simp add: linesz_after_def process_tty_out_def Let_def tty_loop_append putroutraw_def
        verifyroutcap_def fullwrite_def)
qed

subsection \<open>The frame decoder: reading\<close>

lemma map_upt_split:
  "a \<le> b \<Longrightarrow> b \<le> c \<Longrightarrow> map f [a..<c] = map f [a..<b] @ map f [b..<c]"
  by (metis le_Suc_ex map_append upt_add_eq_append)

lemma map_upt_read:
  "map (\<lambda>i. if z \<le> i \<and> i < z + n then bs ! (i - z) else g i) [z..<z + n] = map ((!) bs) [0..<n]"
  by (rule nth_equalityI) auto

lemma map_upt_keep:
  "b \<le> z \<Longrightarrow> map (\<lambda>i. if z \<le> i \<and> i < z + n then h i else g i) [a..<b] = map g [a..<b]"
  by (rule nth_equalityI) auto

lemma rdloop_spec:
  assumes "src_ok (stdin d)" "bfsz d < c" "c \<le> 512"
  shows "\<exists>ok b z s. rdloop c d = Inr (ok, d\<lparr>buf := b, bfsz := z, stdin := s\<rparr>)
     \<and> bfsz d \<le> z \<and> z \<le> 512 \<and> (\<forall>i<bfsz d. b i = buf d i)
     \<and> map b [bfsz d..<z] @ (if ok then srcbytes s else []) = srcbytes (stdin d)
     \<and> (ok \<longrightarrow> c \<le> z \<and> src_ok s \<and> cut s = cut (stdin d))
     \<and> (\<not> ok \<longrightarrow> z < c \<and> s = cut (stdin d))"
  using assms
proof (induction c d rule: rdloop.induct)
  case (1 c d)
  show ?case
  proof (cases rule: list.exhaust[of "stdin d"])
    case Nil
    then show ?thesis using "1.prems" by simp
  next
    case (Cons a rest)
    show ?thesis
    proof (cases a)
      case (Fails e)
      then have "rdloop c d = Inr (False, d\<lparr>buf := buf d, bfsz := bfsz d, stdin := rest\<rparr>)"
        using "1.prems" Cons by (simp add: rdloop.simps[of c d] wouldblock_def)
      then show ?thesis using "1.prems" Cons Fails
        by (intro exI[of _ False] exI[of _ "buf d"] exI[of _ "bfsz d"] exI[of _ rest]) simp
    next
      case (Redn bs)
      define redn where "redn = min (512 - bfsz d) (length bs)"
      define s1 where "s1 = (if redn < length bs then Redn (drop redn bs) # rest else rest)"
      define b1 where "b1 = (\<lambda>i. if bfsz d \<le> i \<and> i < bfsz d + redn then bs ! (i - bfsz d) else buf d i)"
      define d1 where "d1 = d\<lparr>buf := b1, bfsz := bfsz d + redn, stdin := s1\<rparr>"
      have bs: "bs \<noteq> []" and ok_rest: "src_ok rest" using "1.prems" Cons Redn by simp_all
      have nz: "redn \<noteq> 0" using bs "1.prems" by (simp add: redn_def)
      have le: "bfsz d + redn \<le> 512" using "1.prems" by (simp add: redn_def)
      have r: "rdloop c d = (if bfsz d1 < c then rdloop c d1 else Inr (True, d1))"
        using Cons Redn nz
        by (simp add: rdloop.simps[of c d] d1_def b1_def s1_def redn_def Let_def)
      have rd: "map b1 [bfsz d..<bfsz d + redn] = take redn bs"
        unfolding b1_def map_upt_read
        by (rule nth_equalityI) (auto simp: redn_def)
      have sb: "take redn bs @ srcbytes s1 = srcbytes (stdin d)"
        using Cons Redn by (simp add: s1_def)
      have ok1: "src_ok s1" using ok_rest by (simp add: s1_def)
      have cut1: "cut s1 = cut (stdin d)" using Cons Redn by (simp add: s1_def)
      show ?thesis
      proof (cases rule: case_split[of "bfsz d1 < c"])
        case False
        then have "rdloop c d = Inr (True, d\<lparr>buf := b1, bfsz := bfsz d + redn, stdin := s1\<rparr>)"
          using r by (simp add: d1_def)
        moreover have "\<forall>i<bfsz d. b1 i = buf d i" by (simp add: b1_def)
        ultimately show ?thesis using False le rd sb ok1 cut1
          by (intro exI[of _ True] exI[of _ b1] exI[of _ "bfsz d + redn"] exI[of _ s1])
            (simp add: d1_def)
      next
        case True
        have whole: "\<not> redn < length bs"
        proof
          assume "redn < length bs"
          then have "bfsz d + redn = 512" using "1.prems" by (simp add: redn_def)
          then show False using True "1.prems" by (simp add: d1_def)
        qed
        have "\<exists>ok b z s. rdloop c d1 = Inr (ok, d1\<lparr>buf := b, bfsz := z, stdin := s\<rparr>)
           \<and> bfsz d1 \<le> z \<and> z \<le> 512 \<and> (\<forall>i<bfsz d1. b i = buf d1 i)
           \<and> map b [bfsz d1..<z] @ (if ok then srcbytes s else []) = srcbytes (stdin d1)
           \<and> (ok \<longrightarrow> c \<le> z \<and> src_ok s \<and> cut s = cut (stdin d1))
           \<and> (\<not> ok \<longrightarrow> z < c \<and> s = cut (stdin d1))"
          using "1.IH"[of a rest bs redn d1] Cons Redn nz True ok1 "1.prems"
          by (simp add: d1_def b1_def s1_def redn_def)
        then obtain ok b z s where ih:
          "rdloop c d1 = Inr (ok, d1\<lparr>buf := b, bfsz := z, stdin := s\<rparr>)"
          "bfsz d1 \<le> z" "z \<le> 512" "\<forall>i<bfsz d1. b i = buf d1 i"
          "map b [bfsz d1..<z] @ (if ok then srcbytes s else []) = srcbytes (stdin d1)"
          "ok \<longrightarrow> c \<le> z \<and> src_ok s \<and> cut s = cut (stdin d1)"
          "\<not> ok \<longrightarrow> z < c \<and> s = cut (stdin d1)"
          by blast
        have res: "rdloop c d = Inr (ok, d\<lparr>buf := b, bfsz := z, stdin := s\<rparr>)"
          using r True ih(1) by (simp add: d1_def)
        have keep: "\<forall>i<bfsz d. b i = buf d i"
          using ih(4) by (simp add: d1_def b1_def)
        have "map b [bfsz d..<bfsz d + redn] = map b1 [bfsz d..<bfsz d + redn]"
          using ih(4) by (simp add: d1_def)
        then have "map b [bfsz d..<z] = take redn bs @ map b [bfsz d + redn..<z]"
          using map_upt_split[of "bfsz d" "bfsz d + redn" z b] ih(2) rd by (simp add: d1_def)
        then have bytes: "map b [bfsz d..<z] @ (if ok then srcbytes s else []) = srcbytes (stdin d)"
          using ih(5) sb by (simp add: d1_def)
        show ?thesis
          using res keep bytes ih(2,3,6,7) cut1
          by (intro exI[of _ ok] exI[of _ b] exI[of _ z] exI[of _ s]) (simp add: d1_def)
      qed
    qed
  qed
qed

lemma mkeaval_spec:
  assumes "fit d" "src_ok (stdin d)" "c \<le> 512"
  shows "\<exists>ok b i z s. mkeaval c d = Inr (ok, d\<lparr>buf := b, bfi := i, bfsz := z, stdin := s\<rparr>)
     \<and> i \<le> z \<and> z \<le> 512
     \<and> map b [i..<z] @ (if ok then srcbytes s else []) = window d @ srcbytes (stdin d)
     \<and> (ok \<longrightarrow> i + c \<le> z \<and> src_ok s \<and> cut s = cut (stdin d))
     \<and> (\<not> ok \<longrightarrow> z < c \<and> i = 0 \<and> s = cut (stdin d))"
proof (cases rule: case_split[of "c \<le> bfsz d - bfi d"])
  case True
  then have "mkeaval c d = Inr (True, d\<lparr>buf := buf d, bfi := bfi d, bfsz := bfsz d, stdin := stdin d\<rparr>)"
    using assms by (simp add: mkeaval_def)
  then show ?thesis using True assms
    apply -
    apply (rule exI[of _ True], rule exI[of _ "buf d"], rule exI[of _ "bfi d"])
    apply (rule exI[of _ "bfsz d"], rule exI[of _ "stdin d"])
    apply (auto simp: fit_def window_def)
    done
next
  case False
  define bleft where "bleft = bfsz d - bfi d"
  define b0 where "b0 = (\<lambda>i. if i < bleft then buf d (bfi d + i) else buf d i)"
  define d0 where "d0 = d\<lparr>buf := b0, bfi := 0, bfsz := bleft\<rparr>"
  have m: "mkeaval c d = rdloop c d0"
    using False assms by (simp add: mkeaval_def d0_def b0_def bleft_def Let_def)
  have w0: "map b0 [0..<bleft] = window d"
    unfolding window_def b0_def
    using assms(1) by (intro nth_equalityI) (auto simp: bleft_def fit_def)
  have "src_ok (stdin d0)" "bfsz d0 < c" using assms False by (simp_all add: d0_def bleft_def)
  from rdloop_spec[OF this assms(3)] obtain ok b z s where r:
    "rdloop c d0 = Inr (ok, d0\<lparr>buf := b, bfsz := z, stdin := s\<rparr>)"
    "bfsz d0 \<le> z" "z \<le> 512" "\<forall>i<bfsz d0. b i = buf d0 i"
    "map b [bfsz d0..<z] @ (if ok then srcbytes s else []) = srcbytes (stdin d0)"
    "ok \<longrightarrow> c \<le> z \<and> src_ok s \<and> cut s = cut (stdin d0)"
    "\<not> ok \<longrightarrow> z < c \<and> s = cut (stdin d0)"
    by blast
  have "map b [0..<bleft] = map b0 [0..<bleft]"
    using r(4) by (simp add: d0_def)
  then have "map b [0..<z] = window d @ map b [bleft..<z]"
    using map_upt_split[of 0 bleft z b] r(2) w0 by (simp add: d0_def)
  then have bytes: "map b [0..<z] @ (if ok then srcbytes s else []) = window d @ srcbytes (stdin d)"
    using r(5) by (simp add: d0_def)
  have "mkeaval c d = Inr (ok, d\<lparr>buf := b, bfi := 0, bfsz := z, stdin := s\<rparr>)"
    using m r(1) by (simp add: d0_def)
  then show ?thesis using bytes r(3,6,7)
    apply -
    apply (rule exI[of _ ok], rule exI[of _ b], rule exI[of _ 0], rule exI[of _ z])
    apply (rule exI[of _ s])
    apply (simp add: d0_def)
    done
qed

lemma forceinby_spec:
  assumes "fit d" "src_ok (stdin d)" "c \<le> 512"
  shows "(\<exists>b i z s. forceinby c d = Inr (Some i, d\<lparr>buf := b, bfi := i + c, bfsz := z, stdin := s\<rparr>)
       \<and> i + c \<le> z \<and> z \<le> 512 \<and> src_ok s \<and> cut s = cut (stdin d)
       \<and> map b [i..<i + c] @ map b [i + c..<z] @ srcbytes s = window d @ srcbytes (stdin d))
     \<or> (\<exists>b z. forceinby c d = Inr (None, d\<lparr>buf := b, bfi := 0, bfsz := z, stdin := cut (stdin d)\<rparr>)
       \<and> z < c \<and> z \<le> 512 \<and> map b [0..<z] = window d @ srcbytes (stdin d))"
proof -
  from mkeaval_spec[OF assms] obtain ok b i z s where m:
    "mkeaval c d = Inr (ok, d\<lparr>buf := b, bfi := i, bfsz := z, stdin := s\<rparr>)"
    "i \<le> z" "z \<le> 512"
    "map b [i..<z] @ (if ok then srcbytes s else []) = window d @ srcbytes (stdin d)"
    "ok \<longrightarrow> i + c \<le> z \<and> src_ok s \<and> cut s = cut (stdin d)"
    "\<not> ok \<longrightarrow> z < c \<and> i = 0 \<and> s = cut (stdin d)"
    by blast
  show ?thesis
  proof (cases ok)
    case True
    then have "forceinby c d = Inr (Some i, d\<lparr>buf := b, bfi := i + c, bfsz := z, stdin := s\<rparr>)"
      using m(1) by (simp add: forceinby_def)
    moreover have "map b [i..<z] = map b [i..<i + c] @ map b [i + c..<z]"
      using map_upt_split[of i "i + c" z b] m(5) True by simp
    ultimately show ?thesis using m True by auto
  next
    case False
    then have "forceinby c d = Inr (None, d\<lparr>buf := b, bfi := 0, bfsz := z, stdin := cut (stdin d)\<rparr>)"
      using m(1,6) by (simp add: forceinby_def)
    then show ?thesis using m False by auto
  qed
qed

subsection \<open>Network byte order\<close>

lemma nat_cat: 
  assumes "(b::nat) < 2 ^ k" 
  shows "push_bit k a OR b = 2 ^ k * a + b"
proof -
  have tb: "take_bit k b = b" using assms by (rule take_bit_nat_eq_self)
  have "\<not> bit (push_bit k a) n \<or> \<not> bit b n" for n
    using bit_take_bit_iff[of k b n] tb by (auto simp: bit_push_bit_iff)
  then have "push_bit k a + b = push_bit k a OR b" by (rule disjunctive_add)
  then have "push_bit k a OR b = push_bit k a + b" by simp
  then show ?thesis by (simp only: push_bit_eq_mult mult.commute)
qed

lemma byte_lt: "unat (b::byte) < 256"
  using unsigned_less[of b, where 'a=nat] by simp

lemma unat_cat:
  fixes w :: "'a::len word" and x :: "'b::len word"
  assumes "2 ^ k * unat w + unat x < 2 ^ LENGTH('c::len)" "unat x < 2 ^ k"
  shows "unat (push_bit k (ucast w) OR ucast x :: 'c word) = 2 ^ k * unat w + unat x"
proof -
  have xs: "unat x < 2 ^ LENGTH('c)" using assms(1) by simp
  have "unat w \<le> 2 ^ k * unat w" by simp
  then have ws: "unat w < 2 ^ LENGTH('c)" using assms(1) by linarith
  have ps: "push_bit k (unat w) < 2 ^ LENGTH('c)" using assms(1) by (simp add: push_bit_eq_mult mult.commute)
  have "unat (push_bit k (ucast w) OR ucast x :: 'c word)
      = take_bit LENGTH('c) (push_bit k (take_bit LENGTH('c) (unat w))) OR take_bit LENGTH('c) (unat x)"
    by (simp only: unsigned_or_eq unsigned_push_bit_eq unsigned_ucast_eq)
  also have "\<dots> = push_bit k (unat w) OR unat x"
    using xs ws ps by (simp only: take_bit_nat_eq_self)
  also have "\<dots> = 2 ^ k * unat w + unat x"
    using assms(2) by (rule nat_cat)
  finally show ?thesis .
qed

lemma unat_ntohs: "unat (ntohs b0 b1) = 256 * unat b0 + unat b1"
  using unat_cat[of 8 b0 b1, where 'c=16] byte_lt[of b0] byte_lt[of b1]
  by (simp add: ntohs_def)

lemma unat_ntohl:
  "unat (ntohl b0 b1 b2 b3) = 16777216 * unat b0 + 65536 * unat b1 + 256 * unat b2 + unat b3"
proof -
  define x1 :: "32 word" where "x1 = push_bit 8 (ucast b2) OR ucast b3"
  define x2 :: "32 word" where "x2 = push_bit 16 (ucast b1) OR x1"
  have u1: "unat x1 = 256 * unat b2 + unat b3"
    unfolding x1_def
    using unat_cat[of 8 b2 b3, where 'c=32] byte_lt[of b2] byte_lt[of b3] by simp
  have u2: "unat x2 = 65536 * unat b1 + unat x1"
    unfolding x2_def
    using unat_cat[of 16 b1 x1, where 'c=32] byte_lt[of b1] u1 byte_lt[of b2] byte_lt[of b3]
    by simp
  have "unat (push_bit 24 (ucast b0) OR x2) = 16777216 * unat b0 + unat x2"
    using unat_cat[of 24 b0 x2, where 'c=32] byte_lt[of b0] byte_lt[of b1] u1 u2
      byte_lt[of b2] byte_lt[of b3]
    by simp
  then show ?thesis using u1 u2 by (simp add: ntohl_def x1_def x2_def)
qed

lemma word32_lt: "unat (w::32 word) < 4294967296"
  using unsigned_less[of w, where 'a=nat] by simp

lemma unat_hi_lo:
  fixes hi lo :: "32 word"
  shows "unat (push_bit 32 (ucast hi) OR ucast lo :: 64 word) = 4294967296 * unat hi + unat lo"
  using unat_cat[of 32 hi lo, where 'c=64] word32_lt[of hi] word32_lt[of lo] by simp

subsection \<open>The frame decoder: one pass of the loop\<close>

lemma state_same: "state d = v \<Longrightarrow> d\<lparr>state := v\<rparr> = d"
  by auto

lemma step_blk:
  assumes "forceinby (need (enter d)) (enter d) = Inr (None, d1)"
  shows "frame_step d = Inr (False, d1)"
  using assms
  by (cases rule: phase.exhaust[of "state d"])
    (simp_all add: frame_step_def case_0_def case_P_def case_L_def case_X_def case_Y_def
      case_M_def case_D_def enter_def need_def state_same)

lemma step_ok:
  assumes "forceinby (need (enter d)) (enter d) =
      Inr (Some i, (enter d)\<lparr>buf := b, bfi := k, bfsz := z, stdin := s\<rparr>)"
  shows "\<exists>b1. (\<forall>j. i + need (enter d) \<le> j \<longrightarrow> b1 j = b j)
     \<and> frame_step d =
         (case advance (map b [i..<i + need (enter d)]) (enter d) of
            Inl e \<Rightarrow> Inl e
          | Inr d2 \<Rightarrow> Inr (True, d2\<lparr>buf := b1, bfi := k, bfsz := z, stdin := s\<rparr>))"
proof (cases rule: phase.exhaust[of "state d"])
  case S0
  then show ?thesis using assms
    by (intro exI[of _ "b(i := b i AND 0x7f)"])
      (simp add: frame_step_def case_0_def enter_def need_def state_same advance_def Let_def)
next
  case SP
  then show ?thesis using assms
    by (intro exI[of _ "b(i := b i AND 0x7f)"])
      (simp add: frame_step_def case_P_def case_0_def enter_def need_def advance_def Let_def)
next
  case SL
  then show ?thesis using assms
    by (intro exI[of _ b])
      (simp add: frame_step_def case_L_def enter_def need_def state_same advance_def Let_def)
next
  case SX
  then show ?thesis using assms
    by (intro exI[of _ b])
      (simp add: frame_step_def case_X_def enter_def need_def state_same advance_def Let_def)
next
  case SY
  then show ?thesis using assms
    by (intro exI[of _ b])
      (simp add: frame_step_def case_Y_def enter_def need_def state_same advance_def Let_def)
next
  case SM
  then show ?thesis using assms
    by (intro exI[of _ b])
      (simp add: frame_step_def case_M_def enter_def need_def state_same advance_def Let_def
        while_datalen_def cong: if_cong)
next
  case SD
  then show ?thesis using assms
    by (intro exI[of _ "\<lambda>j. if i \<le> j \<and> j < i + datpart d
          then fst (unmaskloop (maskb d) (unmaskof d) (map b [i..<i + datpart d])) ! (j - i)
          else b j"])
      (simp add: frame_step_def case_D_def enter_def need_def state_same advance_def Let_def
        while_datalen_def fdb_apnd_def cong: if_cong)
qed

subsection \<open>The frame decoder against the run on the whole byte string\<close>

lemma enter_facts:
  "fit (enter d) = fit d" "stdin (enter d) = stdin d" "window (enter d) = window d"
  "datpart (enter d) = datpart d" "state (enter d) \<noteq> SP" "enter (enter d) = enter d"
  "core_of (enter d) = enter (core_of d)"
  by (auto simp: enter_def fit_def window_def full_write_def core_of_def)

lemma need_bound: "datpart d \<le> 512 \<Longrightarrow> need (enter d) \<le> 512"
  by (auto simp: need_def enter_def full_write_def split: phase.splits)

lemma need_core: "need (core_of d) = need d"
  by (simp add: need_def core_of_def split: phase.splits)

lemma need_buffer: "need (d\<lparr>buf := b, bfi := k, bfsz := z, stdin := s\<rparr>) = need d"
  by (simp add: need_def split: phase.splits)

lemma advance_core:
  "advance bs (core_of d) = (case advance bs d of Inl e \<Rightarrow> Inl e | Inr d2 \<Rightarrow> Inr (core_of d2))"
  by (cases rule: phase.exhaust[of "state d"])
    (simp_all add: advance_def core_of_def Let_def while_datalen_def fdb_apnd_def cong: if_cong)

lemma advance_datpart: "advance bs d = Inr d2 \<Longrightarrow> datpart d \<le> 512 \<Longrightarrow> datpart d2 \<le> 512"
  by (cases rule: phase.exhaust[of "state d"])
    (auto simp: advance_def Let_def while_datalen_def fdb_apnd_def split: if_splits)

lemma pure_run_enter: "pure_run (enter d) bs = pure_run d bs"
  by (simp add: pure_run.simps[of "enter d" bs] pure_run.simps[of d bs] enter_facts Let_def)

lemma pure_run_stuck:
  "length bs < need (enter d) \<Longrightarrow> pure_run d bs = Inr (enter d)"
  by (simp add: pure_run.simps[of d bs] Let_def)

lemma pure_run_go:
  "need (enter d) \<le> length bs \<Longrightarrow>
   pure_run d bs = (case advance (take (need (enter d)) bs) (enter d) of
                      Inl e \<Rightarrow> Inl e | Inr d1 \<Rightarrow> pure_run d1 (drop (need (enter d)) bs))"
  by (simp add: pure_run.simps[of d bs] Let_def)

lemma pure_run_core_go:
  assumes "length bs = need (enter d)"
  shows "pure_run (core_of d) (bs @ rest) =
     (case advance bs (enter d) of Inl e \<Rightarrow> Inl e | Inr d2 \<Rightarrow> pure_run (core_of d2) rest)"
proof -
  have e: "enter (core_of d) = core_of (enter d)" by (simp add: enter_facts(7))
  have n: "need (core_of (enter d)) = length bs" by (simp add: need_core assms)
  have "pure_run (core_of d) (bs @ rest) =
      (case advance bs (core_of (enter d)) of Inl e \<Rightarrow> Inl e | Inr d1 \<Rightarrow> pure_run d1 rest)"
    using pure_run_go[of "core_of d" "bs @ rest"] by (simp add: e n cong: sum.case_cong)
  then show ?thesis by (simp add: advance_core split: sum.splits)
qed

lemma sim_step:
  assumes "fit d" "src_ok (stdin d)" "datpart d \<le> 512"
    "pure_run (core_of d) (pend d future) = Inr x"
  shows "\<exists>again d1. frame_step d = Inr (again, d1) \<and> fit d1 \<and> datpart d1 \<le> 512
     \<and> (again \<longrightarrow> src_ok (stdin d1) \<and> cut (stdin d1) = cut (stdin d)
           \<and> pure_run (core_of d1) (pend d1 future) = Inr x)
     \<and> (\<not> again \<longrightarrow> stdin d1 = cut (stdin d)
           \<and> pure_run (core_of d1) (window d1 @ future) = Inr x
           \<and> length (window d1) < need d1 \<and> state d1 \<noteq> SP)"
proof -
  define e where "e = enter d"
  define c where "c = need e"
  have fe: "fit e" "src_ok (stdin e)" "c \<le> 512"
    using assms by (simp_all add: e_def c_def enter_facts need_bound)
  have pe: "window e @ srcbytes (stdin e) = window d @ srcbytes (stdin d)"
    by (simp add: e_def enter_facts)
  from forceinby_spec[OF fe] consider
    (ok) b i z s where
      "forceinby c e = Inr (Some i, e\<lparr>buf := b, bfi := i + c, bfsz := z, stdin := s\<rparr>)"
      "i + c \<le> z" "z \<le> 512" "src_ok s" "cut s = cut (stdin e)"
      "map b [i..<i + c] @ map b [i + c..<z] @ srcbytes s = window e @ srcbytes (stdin e)"
  | (blk) b z where
      "forceinby c e = Inr (None, e\<lparr>buf := b, bfi := 0, bfsz := z, stdin := cut (stdin e)\<rparr>)"
      "z < c" "z \<le> 512" "map b [0..<z] = window e @ srcbytes (stdin e)"
    by blast
  then show ?thesis
  proof cases
    case blk
    define d1 where "d1 = e\<lparr>buf := b, bfi := 0, bfsz := z, stdin := cut (stdin e)\<rparr>"
    have st: "frame_step d = Inr (False, d1)"
      using step_blk[of d d1] blk(1) by (simp add: e_def c_def d1_def)
    have w: "window d1 @ future = pend d future"
      using blk(4) pe by (simp add: d1_def window_def pend_def)
    have co: "core_of d1 = enter (core_of d)"
      by (simp add: d1_def core_of_def e_def enter_def full_write_def)
    have "pure_run (core_of d1) (window d1 @ future) = Inr x"
      using assms(4) by (simp add: w co pure_run_enter)
    moreover have "length (window d1) < need d1"
      using blk(2) by (simp add: d1_def window_def c_def need_buffer)
    moreover have "state d1 \<noteq> SP" "stdin d1 = cut (stdin d)" "fit d1" "datpart d1 \<le> 512"
      using blk(3) assms(3) by (simp_all add: d1_def e_def enter_facts fit_def)
    ultimately show ?thesis using st by auto
  next
    case ok
    from step_ok[where d=d and i=i and b=b and k="i + c" and z=z and s=s] ok(1) obtain b1 where b1:
      "\<forall>j. i + c \<le> j \<longrightarrow> b1 j = b j"
      "frame_step d = (case advance (map b [i..<i + c]) e of
            Inl err \<Rightarrow> Inl err
          | Inr d2 \<Rightarrow> Inr (True, d2\<lparr>buf := b1, bfi := i + c, bfsz := z, stdin := s\<rparr>))"
      by (auto simp: e_def c_def)
    define bs where "bs = map b [i..<i + c]"
    define rest where "rest = map b [i + c..<z] @ srcbytes s @ future"
    have p: "pend d future = bs @ rest"
      using ok(6) pe by (simp add: pend_def bs_def rest_def)
    have lb: "length bs = c" by (simp add: bs_def)
    have run: "(case advance bs e of Inl err \<Rightarrow> Inl err
                    | Inr d2 \<Rightarrow> pure_run (core_of d2) rest) = Inr x"
      using pure_run_core_go[of bs d rest] assms(4) lb by (simp add: p e_def c_def)
    then obtain d2 where d2: "advance bs e = Inr d2" "pure_run (core_of d2) rest = Inr x"
      by (auto split: sum.splits)
    define d1 where "d1 = d2\<lparr>buf := b1, bfi := i + c, bfsz := z, stdin := s\<rparr>"
    have st: "frame_step d = Inr (True, d1)"
      using b1(2) d2(1) by (simp add: bs_def d1_def)
    have "map b1 [i + c..<z] = map b [i + c..<z]"
      using b1(1) by simp
    then have "pend d1 future = rest"
      by (simp add: pend_def window_def d1_def rest_def)
    moreover have "core_of d1 = core_of d2" by (simp add: d1_def core_of_def)
    ultimately have "pure_run (core_of d1) (pend d1 future) = Inr x"
      using d2(2) by simp
    moreover have "fit d1" using ok(2,3) by (simp add: fit_def d1_def)
    moreover have "datpart d1 \<le> 512"
      using advance_datpart[OF d2(1)] assms(3) by (simp add: d1_def e_def enter_facts)
    moreover have "src_ok (stdin d1)" "cut (stdin d1) = cut (stdin d)"
      using ok(4,5) by (simp_all add: d1_def e_def enter_facts)
    ultimately show ?thesis using st by auto
  qed
qed

lemma loop_sim:
  assumes "fit d" "src_ok (stdin d)" "datpart d \<le> 512"
    "pure_run (core_of d) (pend d future) = Inr x"
  shows "\<exists>d1. frames_loop d = Inr d1 \<and> fit d1 \<and> datpart d1 \<le> 512
     \<and> stdin d1 = cut (stdin d) \<and> pure_run (core_of d1) (window d1 @ future) = Inr x
     \<and> length (window d1) < need d1 \<and> state d1 \<noteq> SP"
  using assms
proof (induction d rule: frames_loop.induct)
  case (1 d)
  from sim_step[OF "1.prems"] obtain again d1 where s:
    "frame_step d = Inr (again, d1)" "fit d1" "datpart d1 \<le> 512"
    "again \<longrightarrow> src_ok (stdin d1) \<and> cut (stdin d1) = cut (stdin d)
           \<and> pure_run (core_of d1) (pend d1 future) = Inr x"
    "\<not> again \<longrightarrow> stdin d1 = cut (stdin d)
           \<and> pure_run (core_of d1) (window d1 @ future) = Inr x
           \<and> length (window d1) < need d1 \<and> state d1 \<noteq> SP"
    by blast
  show ?case
  proof (cases again)
    case False
    then show ?thesis using s by (simp add: frames_loop.simps[of d])
  next
    case True
    then have "\<exists>d2. frames_loop d1 = Inr d2 \<and> fit d2 \<and> datpart d2 \<le> 512
       \<and> stdin d2 = cut (stdin d1) \<and> pure_run (core_of d2) (window d2 @ future) = Inr x
       \<and> length (window d2) < need d2 \<and> state d2 \<noteq> SP"
      using "1.IH"[of "(again, d1)" again d1] s by simp
    then show ?thesis using s True by (simp add: frames_loop.simps[of d])
  qed
qed

lemma srcbytes_reads: "srcbytes (map Redn reads @ [Fails e]) = concat reads"
  by (induction reads) simp_all

lemma src_ok_reads: "[] \<notin> set reads \<Longrightarrow> wouldblock e \<Longrightarrow> src_ok (map Redn reads @ [Fails e])"
  by (induction reads) auto

lemma cut_reads: "cut (map Redn reads @ [Fails e]) = []"
  by (induction reads) simp_all

lemma resting_pure: "resting d \<Longrightarrow> pure_run (core_of d) (window d) = Inr (core_of d)"
proof -
  assume r: "resting d"
  then have e: "enter (core_of d) = core_of d"
    by (simp add: resting_def enter_def core_of_def)
  then have "length (window d) < need (enter (core_of d))"
    using r by (simp add: resting_def need_core)
  then show ?thesis using pure_run_stuck[of "window d" "core_of d"] e by simp
qed

lemma call_sim:
  assumes "resting d" "[] \<notin> set reads" "wouldblock e"
    "pure_run (core_of d) (window d @ concat reads @ future) = Inr x"
  shows "\<exists>d1. fwrd_inbound_frames (d\<lparr>stdin := map Redn reads @ [Fails e]\<rparr>) = Inr d1
     \<and> resting d1 \<and> stdin d1 = [] \<and> pure_run (core_of d1) (window d1 @ future) = Inr x"
proof -
  define d0 where "d0 = d\<lparr>stdin := map Redn reads @ [Fails e]\<rparr>"
  have f: "fit d0" "datpart d0 \<le> 512" "src_ok (stdin d0)"
    using assms(1,2,3) by (simp_all add: d0_def resting_def fit_def src_ok_reads)
  have p: "pend d0 future = window d @ concat reads @ future"
    by (simp add: pend_def d0_def window_def srcbytes_reads)
  have c: "core_of d0 = core_of d" by (simp add: d0_def core_of_def)
  have "state d0 = S0 \<longrightarrow> bfi d0 = bfsz d0"
    using assms(1) by (auto simp: resting_def d0_def need_def window_def fit_def)
  then have w: "fwrd_inbound_frames d0 = frames_loop d0"
    by (auto simp: fwrd_inbound_frames_def)
  from loop_sim[OF f(1) f(3) f(2), of future x] assms(4)
  obtain d1 where "frames_loop d0 = Inr d1" "fit d1" "datpart d1 \<le> 512"
      "stdin d1 = cut (stdin d0)" "pure_run (core_of d1) (window d1 @ future) = Inr x"
      "length (window d1) < need d1" "state d1 \<noteq> SP"
    by (auto simp: p c)
  then show ?thesis using w by (auto simp: d0_def resting_def cut_reads)
qed

lemma calls_sim:
  assumes "resting d" "calls_ok cs" "pure_run (core_of d) (window d @ bytes_read cs) = Inr x"
  shows "\<exists>d1. calls cs d = Inr d1 \<and> resting d1 \<and> core_of d1 = x"
  using assms
proof (induction cs arbitrary: d)
  case Nil
  then show ?case using resting_pure[of d] by (simp add: bytes_read_def)
next
  case (Cons c cs)
  obtain reads e where c: "c = (reads, e)" by (cases c)
  have ok: "[] \<notin> set reads" "wouldblock e" "calls_ok cs"
    using Cons.prems(2) c by (auto simp: calls_ok_def)
  have "pure_run (core_of d) (window d @ concat reads @ bytes_read cs) = Inr x"
    using Cons.prems(3) c by (simp add: bytes_read_def)
  from call_sim[OF Cons.prems(1) ok(1,2) this] obtain d1 where d1:
    "fwrd_inbound_frames (d\<lparr>stdin := map Redn reads @ [Fails e]\<rparr>) = Inr d1"
    "resting d1" "pure_run (core_of d1) (window d1 @ bytes_read cs) = Inr x"
    by blast
  from Cons.IH[OF d1(2) ok(3) d1(3)] show ?case using d1(1) c by simp
qed

subsection \<open>The run on the whole byte string: one frame after the other\<close>

lemma and3: "(n::nat) AND 3 = n mod 4"
  using take_bit_eq_mask[of 2 n] by (simp add: take_bit_eq_mod mask_eq_exp_minus_1)

lemma unmaskloop_spec:
  "u < 4 \<Longrightarrow> unmaskloop m u bs =
     (map (\<lambda>i. bs ! i XOR m ((u + i) mod 4)) [0..<length bs], (u + length bs) mod 4)"
proof (induction bs arbitrary: u)
  case Nil
  then show ?case by simp
next
  case (Cons b bs)
  have "(u + 1) mod 4 < 4" by simp
  from Cons.IH[OF this] show ?case using Cons.prems
    by (simp add: and3 Let_def map_upt_Suc mod_simps del: upt_Suc)
qed

lemma pure_run_take:
  assumes "state d \<noteq> SP" "length bs = need d" "advance bs d = Inr d2"
  shows "pure_run d (bs @ rest) = pure_run d2 rest"
proof -
  have e: "enter d = d" using assms(1) by (simp add: enter_def)
  show ?thesis using pure_run_go[of d "bs @ rest"] assms(2,3) by (simp add: e)
qed

lemma pure_run_rest: "state d \<noteq> SP \<Longrightarrow> state d \<noteq> SD \<Longrightarrow> pure_run d [] = Inr d"
  using pure_run_stuck[of "[]" d] by (simp add: enter_def need_def split: phase.splits)

lemma datalen_sub:
  assumes "c \<le> unat (w::64 word)" "c \<le> 512"
  shows "unat (w - of_nat c) = unat w - c"
proof -
  have u: "unat (of_nat c :: 64 word) = c" using assms(2) by (simp add: unsigned_of_nat take_bit_nat_eq_self)
  then have "(of_nat c :: 64 word) \<le> w" using assms(1) by (simp add: word_le_nat_alt)
  then show ?thesis using u by (simp add: unat_sub)
qed

lemma pure_data:
  assumes "state d = SD" "unat (datalen d) = length xs" "xs \<noteq> []"
    "datpart d = min (length xs) 512" "unmaskof d < 4"
  shows "\<exists>d1. pure_run d (xs @ rest) = pure_run d1 rest \<and> state d1 = S0
     \<and> dest d1 = dest d @ map (\<lambda>i. xs ! i XOR maskb d ((unmaskof d + i) mod 4)) [0..<length xs]
     \<and> stdout d1 = stdout d"
  using assms
proof (induction "length xs" arbitrary: xs d rule: less_induct)
  case less
  define c where "c = min (length xs) 512"
  have c: "0 < c" "c \<le> length xs" "c \<le> 512" using less.prems(3) by (simp_all add: c_def)
  define r where "r = unmaskloop (maskb d) (unmaskof d) (take c xs)"
  define d2 where "d2 = while_datalen
      ((fdb_apnd (fst r) (d\<lparr>unmaskof := snd r\<rparr>))\<lparr>datalen := datalen d - of_nat c\<rparr>)"
  have adv: "advance (take c xs) d = Inr d2"
    using less.prems(1,4) by (simp add: advance_def d2_def r_def c_def Let_def)
  have n: "need d = c" using less.prems(1,4) by (simp add: need_def c_def)
  have "pure_run d (take c xs @ drop c xs @ rest) = pure_run d2 (drop c xs @ rest)"
    using less.prems(1) n c(2) adv by (intro pure_run_take) simp_all
  then have go: "pure_run d (xs @ rest) = pure_run d2 (drop c xs @ rest)"
    using append_take_drop_id[of c xs] by (metis append_assoc)
  have dl: "unat (datalen d - of_nat c) = length xs - c"
    using datalen_sub[of c "datalen d"] c less.prems(2) by simp
  have "fst r = map (\<lambda>i. take c xs ! i XOR maskb d ((unmaskof d + i) mod 4)) [0..<c]"
    using unmaskloop_spec[OF less.prems(5), of "maskb d" "take c xs"] c(2) by (simp add: r_def)
  then have r1: "fst r = map (\<lambda>i. xs ! i XOR maskb d ((unmaskof d + i) mod 4)) [0..<c]"
    by simp
  have r2: "snd r = (unmaskof d + c) mod 4"
    using unmaskloop_spec[OF less.prems(5), of "maskb d" "take c xs"] c(2) by (simp add: r_def)
  show ?case
  proof (cases "length xs = c")
    case True
    then have z: "datalen d - of_nat c = 0" using dl by (simp add: unat_eq_0)
    have "state d2 = S0" "dest d2 = dest d @ fst r" "stdout d2 = stdout d"
      by (simp_all add: d2_def while_datalen_def z fdb_apnd_def)
    then show ?thesis using go True r1 by (intro exI[of _ d2]) simp
  next
    case False
    then have nz: "datalen d - of_nat c \<noteq> 0" using dl c(2) by (auto simp: unat_eq_0)
    have f: "state d2 = SD" "dest d2 = dest d @ fst r" "stdout d2 = stdout d"
        "maskb d2 = maskb d" "unmaskof d2 = snd r" "datalen d2 = datalen d - of_nat c"
        "datpart d2 = min (length xs - c) 512"
      using dl nz by (simp_all add: d2_def while_datalen_def fdb_apnd_def)
    have p: "length (drop c xs) < length xs" "unat (datalen d2) = length (drop c xs)"
        "drop c xs \<noteq> []" "datpart d2 = min (length (drop c xs)) 512" "unmaskof d2 < 4"
      using c False f dl by (simp_all add: r2)
    from less.hyps[OF p(1) f(1) p(2) p(3) p(4) p(5)] obtain d1 where d1:
      "pure_run d2 (drop c xs @ rest) = pure_run d1 rest" "state d1 = S0"
      "dest d1 = dest d2 @ map (\<lambda>i. drop c xs ! i XOR maskb d2 ((unmaskof d2 + i) mod 4))
                             [0..<length (drop c xs)]"
      "stdout d1 = stdout d2"
      by blast
    have "map (\<lambda>i. drop c xs ! i XOR maskb d2 ((unmaskof d2 + i) mod 4)) [0..<length (drop c xs)]
        = map (\<lambda>i. xs ! i XOR maskb d ((unmaskof d + i) mod 4)) [c..<length xs]"
      using c(2) by (intro nth_equalityI) (simp_all add: f r2 mod_add_left_eq add.assoc)
    then have "dest d1 = dest d
        @ map (\<lambda>i. xs ! i XOR maskb d ((unmaskof d + i) mod 4)) [0..<c]
        @ map (\<lambda>i. xs ! i XOR maskb d ((unmaskof d + i) mod 4)) [c..<length xs]"
      using d1(3) f(2) r1 by simp
    then have "dest d1 = dest d
        @ map (\<lambda>i. xs ! i XOR maskb d ((unmaskof d + i) mod 4)) [0..<length xs]"
      using map_upt_split[where a=0 and b=c and c="length xs"
          and f="\<lambda>i. xs ! i XOR maskb d ((unmaskof d + i) mod 4)"] c(2) by simp
    then show ?thesis using go d1 f(3) by (intro exI[of _ d1]) simp
  qed
qed

lemma unat_up8: "unat (ucast (x::byte) :: 64 word) = unat x"
  using byte_lt[of x] by (simp add: unsigned_ucast_eq take_bit_nat_eq_self)

lemma unat_up16: "unat (ucast (x::16 word) :: 64 word) = unat x"
  using unsigned_less[of x, where 'a=nat] by (simp add: unsigned_ucast_eq take_bit_nat_eq_self)

lemma up8_eq: "(ucast (x::byte) :: 64 word) = numeral k \<longleftrightarrow> unat x = unat (numeral k :: 64 word)"
  using unat_up8[of x] by (simp add: word_unat_eq_iff)

lemma byte_eq: "(x::byte) = y \<longleftrightarrow> unat x = unat y"
  by (simp add: word_unat_eq_iff)

lemma pure_header:
  assumes "header_ok h l ext" "state d = S0"
  shows "\<exists>d1. (\<forall>rest. pure_run d (h # l # ext @ rest) = pure_run d1 rest) \<and> state d1 = SM
     \<and> unat (datalen d1) = length_of l ext \<and> dest d1 = dest d \<and> stdout d1 = stdout d"
proof -
  define dL where "dL = d\<lparr>state := SL\<rparr>"
  define n :: "64 word" where "n = ucast (l AND 0x7f)"
  define dn where "dn = dL\<lparr>datalen := n,
      state := (if n = 126 then SX else if n = 127 then SY else SM)\<rparr>"
  have n126: "n = 126 \<longleftrightarrow> l AND 0x7f = 126" and n127: "n = 127 \<longleftrightarrow> l AND 0x7f = 127"
    by (simp_all add: n_def up8_eq byte_eq[of "l AND 0x7f"])
  have "advance [h] d = Inr dL"
    using assms by (auto simp: advance_def header_ok_def dL_def Let_def)
  then have s1: "pure_run d ([h] @ rest) = pure_run dL rest" for rest
    using assms(2) by (intro pure_run_take) (simp_all add: need_def)
  have "advance [l] dL = Inr dn"
    using assms(1) by (simp add: advance_def header_ok_def dL_def dn_def n_def Let_def)
  then have s2: "pure_run dL ([l] @ rest) = pure_run dn rest" for rest
    by (intro pure_run_take) (simp_all add: need_def dL_def)
  have s12: "pure_run d (h # l # rest) = pure_run dn rest" for rest
    using s1[of "l # rest"] s2[of rest] by simp
  have dn: "dest dn = dest d" "stdout dn = stdout d" "datalen dn = n"
    by (simp_all add: dn_def dL_def)
  consider (x) "l AND 0x7f = 126" | (y) "l AND 0x7f = 127"
    | (m) "l AND 0x7f \<noteq> 126" "l AND 0x7f \<noteq> 127" by blast
  then show ?thesis
  proof cases
    case x
    then have "length ext = 2" using assms(1) by (simp add: header_ok_def)
    then obtain e0 e1 where e: "ext = [e0, e1]"
      by (auto simp: length_Suc_conv numeral_2_eq_2)
    define d1 where "d1 = dn\<lparr>datalen := ucast (ntohs e0 e1), state := SM\<rparr>"
    have st: "state dn = SX" using x by (simp add: dn_def n126)
    then have "advance ext dn = Inr d1" by (simp add: advance_def d1_def e)
    then have "pure_run dn (ext @ rest) = pure_run d1 rest" for rest
      using st by (intro pure_run_take) (simp_all add: need_def e)
    then have "\<forall>rest. pure_run d (h # l # ext @ rest) = pure_run d1 rest"
      using s12 by simp
    moreover have "unat (datalen d1) = length_of l ext"
      using x by (simp add: d1_def length_of_def e be_nat_def unat_up16 unat_ntohs)
    ultimately show ?thesis using dn by (intro exI[of _ d1]) (simp add: d1_def)
  next
    case y
    then have "length ext = 8" using assms(1) by (simp add: header_ok_def)
    then obtain e0 e1 e2 e3 e4 e5 e6 e7 where e: "ext = [e0, e1, e2, e3, e4, e5, e6, e7]"
      by (auto simp: length_Suc_conv numeral_eq_Suc)
    define d1 where "d1 = dn\<lparr>datalen := push_bit 32 (ucast (ntohl e0 e1 e2 e3))
                              OR ucast (ntohl e4 e5 e6 e7), state := SM\<rparr>"
    have st: "state dn = SY" using y by (simp add: dn_def n126 n127)
    then have "advance ext dn = Inr d1" by (simp add: advance_def d1_def e)
    then have "pure_run dn (ext @ rest) = pure_run d1 rest" for rest
      using st by (intro pure_run_take) (simp_all add: need_def e)
    then have "\<forall>rest. pure_run d (h # l # ext @ rest) = pure_run d1 rest"
      using s12 by simp
    moreover have "unat (datalen d1) = length_of l ext"
      using y by (simp add: d1_def length_of_def e be_nat_def unat_hi_lo unat_ntohl)
    ultimately show ?thesis using dn by (intro exI[of _ d1]) (simp add: d1_def)
  next
    case m
    then have "ext = []" using assms(1) by (simp add: header_ok_def)
    moreover have "state dn = SM" using m by (simp add: dn_def n126 n127)
    moreover have "unat (datalen dn) = length_of l ext"
      using m by (simp add: dn length_of_def n_def unat_up8)
    ultimately show ?thesis using dn s12 by (intro exI[of _ dn]) simp
  qed
qed

lemma pure_frame:
  assumes "data_frame f" "state d = S0"
  shows "\<exists>d1. pure_run d (wire f @ rest) = pure_run d1 rest \<and> state d1 = S0
     \<and> dest d1 = dest d @ unmask (fkey f) (fwire f) \<and> stdout d1 = stdout d"
proof -
  define key where "key = fkey f"
  define w where "w = fwire f"
  have k: "length key = 4" using assms(1) by (simp add: data_frame_def key_def)
  from pure_header[of "fhdr f" "flenb f" "fext f" d] assms obtain dK where dK:
    "\<And>rest. pure_run d (fhdr f # flenb f # fext f @ rest) = pure_run dK rest"
    "state dK = SM" "unat (datalen dK) = length w" "dest dK = dest d" "stdout dK = stdout d"
    by (auto simp: data_frame_def w_def)
  define dD where "dD = while_datalen
      (dK\<lparr>maskb := (\<lambda>i. if i < 4 then key ! i else maskb dK i), unmaskof := 0\<rparr>)"
  have "advance key dK = Inr dD" using dK(2) by (simp add: advance_def dD_def)
  then have "pure_run dK (key @ rest) = pure_run dD rest" for rest
    using dK(2) k by (intro pure_run_take) (simp_all add: need_def)
  then have go: "pure_run d (wire f @ rest) = pure_run dD (w @ rest)"
    using dK(1)[of "key @ w @ rest"] by (simp add: wire_def key_def w_def)
  show ?thesis
  proof (cases "w = []")
    case True
    then have "datalen dK = 0" using dK(3) by (simp add: unat_eq_0)
    then have "state dD = S0" "dest dD = dest d" "stdout dD = stdout d"
      using dK by (simp_all add: dD_def while_datalen_def)
    then show ?thesis using go True
      by (intro exI[of _ dD]) (simp add: unmask_def w_def[symmetric])
  next
    case False
    then have nz: "datalen dK \<noteq> 0" using dK(3) by (auto simp: unat_eq_0)
    have f: "state dD = SD" "dest dD = dest d" "stdout dD = stdout d" "unmaskof dD = 0"
        "maskb dD = (\<lambda>i. if i < 4 then key ! i else maskb dK i)"
        "datalen dD = datalen dK" "datpart dD = min (length w) 512"
      using dK nz by (simp_all add: dD_def while_datalen_def min_def)
    have "\<exists>d1. pure_run dD (w @ rest) = pure_run d1 rest \<and> state d1 = S0
       \<and> dest d1 = dest dD @ map (\<lambda>i. w ! i XOR maskb dD ((unmaskof dD + i) mod 4)) [0..<length w]
       \<and> stdout d1 = stdout dD"
      using f dK(3) False by (intro pure_data) simp_all
    then obtain d1 where d1: "pure_run dD (w @ rest) = pure_run d1 rest" "state d1 = S0"
      "dest d1 = dest dD @ map (\<lambda>i. w ! i XOR maskb dD ((unmaskof dD + i) mod 4)) [0..<length w]"
      "stdout d1 = stdout dD"
      by blast
    have "dest d1 = dest d @ unmask key w"
      using d1(3) by (simp add: f unmask_def)
    then show ?thesis using go d1 f(3)
      by (intro exI[of _ d1]) (simp add: key_def w_def)
  qed
qed

lemma pure_frames:
  assumes "\<forall>f \<in> set fs. data_frame f" "state d = S0"
  shows "\<exists>d1. pure_run d (concat (map wire fs) @ rest) = pure_run d1 rest \<and> state d1 = S0
     \<and> dest d1 = dest d @ payloads fs \<and> stdout d1 = stdout d"
  using assms
proof (induction fs arbitrary: d)
  case Nil
  then show ?case by (intro exI[of _ d]) (simp add: payloads_def)
next
  case (Cons f fs)
  from pure_frame[of f d "concat (map wire fs) @ rest"] Cons.prems obtain d1 where d1:
    "pure_run d (wire f @ concat (map wire fs) @ rest) = pure_run d1 (concat (map wire fs) @ rest)"
    "state d1 = S0" "dest d1 = dest d @ unmask (fkey f) (fwire f)" "stdout d1 = stdout d"
    by auto
  from Cons.IH[of d1] Cons.prems(1) d1(2) obtain d2 where d2:
    "pure_run d1 (concat (map wire fs) @ rest) = pure_run d2 rest" "state d2 = S0"
    "dest d2 = dest d1 @ payloads fs" "stdout d2 = stdout d1"
    by auto
  show ?case using d1 d2 by (intro exI[of _ d2]) (simp add: payloads_def)
qed

lemma resting_inb0: "resting inb0" "core_of inb0 = inb0" "window inb0 = []" "state inb0 = S0"
  by (simp_all add: resting_def inb0_def fit_def window_def need_def core_of_def)

lemma core_same: "core_of d = x \<Longrightarrow> dest d = dest x \<and> state d = state x \<and> datalen d = datalen x
    \<and> stdout d = stdout x"
  by (auto simp: core_of_def)

text \<open>
  C1, as stated, fails: the claim is about every masked data frame, and the spec has
  the RSV bits ignored, but the code clears FIN only. The frame \<^verbatim>\<open>c1 81 01 02 03 04 40\<close>
  (FIN, RSV1, opcode text, MASK, length 1) is a masked data frame in the spec's words,
  with the payload \<^verbatim>\<open>41\<close> once unmasked. The code compares \<^verbatim>\<open>c1 & 7f = 41\<close> with 0, 1, 2
  and 9, takes the byte as a frame of another opcode and skips that byte alone; \<^verbatim>\<open>81\<close>
  then opens a data frame whose second byte \<^verbatim>\<open>01\<close> has no MASK bit, and the call aborts
  with nothing delivered. With the first byte \<^verbatim>\<open>81\<close> the same frame is delivered.
\<close>

theorem rsv_frame_not_delivered:
  "spec_data_frame \<lparr>fhdr = 0xc1, flenb = 0x81, fext = [], fkey = [0x01, 0x02, 0x03, 0x04],
                     fwire = [0x40]\<rparr>
   \<and> dest_of (calls [([[0xc1, 0x81, 0x01, 0x02, 0x03, 0x04, 0x40]], EAGAIN)] inb0) = None
   \<and> dest_of (calls [([[0x81, 0x81, 0x01, 0x02, 0x03, 0x04, 0x40]], EAGAIN)] inb0)
       = Some [0x41]"
  by code_simp

text \<open>
  C1, amended. For every sequence \<^verbatim>\<open>fs\<close> of masked data frames whose RSV bits are clear
  (\<^verbatim>\<open>data_frame\<close>: FIN aside, the first byte is the opcode continuation, text or binary;
  any payload length the 64-bit length field can announce) and every way
  \<^verbatim>\<open>cs\<close> of meeting the bytes of these frames in calls of \<^verbatim>\<open>fwrd_inbound_frames\<close>, each
  call being any number of reads of one byte or more followed by a read that would
  block: the calls, started from the zeroed statics, all return, and the bytes they have
  appended to the destination buffer are the frames' payloads, each byte XORed with
  \<^verbatim>\<open>mask[i mod 4]\<close> for its offset \<^verbatim>\<open>i\<close> in its payload, in order. The right-hand side
  does not mention \<^verbatim>\<open>cs\<close>: the result is independent of the chunking.
\<close>

theorem payloads_delivered:
  assumes "\<forall>f \<in> set fs. data_frame f" "calls_ok cs" "bytes_read cs = concat (map wire fs)"
  shows "dest_of (calls cs inb0) = Some (payloads fs)"
proof -
  from pure_frames[OF assms(1) resting_inb0(4), of "[]"] obtain x where x:
    "pure_run inb0 (concat (map wire fs)) = pure_run x []" "state x = S0"
    "dest x = dest inb0 @ payloads fs"
    by auto
  have "pure_run x [] = Inr x" using x(2) by (intro pure_run_rest) simp_all
  then have "pure_run (core_of inb0) (window inb0 @ bytes_read cs) = Inr x"
    using x(1) assms(3) by (simp add: resting_inb0)
  from calls_sim[OF resting_inb0(1) assms(2) this] obtain d1 where
    "calls cs inb0 = Inr d1" "core_of d1 = x" by blast
  then show ?thesis using core_same[of d1 x] x(3) by (simp add: dest_of_def inb0_def)
qed

theorem payloads_delivered_witness:
  "dest_of (calls [([[0x81, 0x83, 0x01]], EAGAIN),
                   ([[0x02, 0x03, 0x04, 0x40], [0x41]], EWOULDBLOCK),
                   ([[0x42]], EINTR)] inb0)
     = Some [0x41, 0x43, 0x41]"
  using payloads_delivered[of
      "[\<lparr>fhdr = 0x81, flenb = 0x83, fext = [], fkey = [0x01, 0x02, 0x03, 0x04],
         fwire = [0x40, 0x41, 0x42]\<rparr>]"
      "[([[0x81, 0x83, 0x01]], EAGAIN), ([[0x02, 0x03, 0x04, 0x40], [0x41]], EWOULDBLOCK),
        ([[0x42]], EINTR)]"]
  by (simp add: data_frame_def header_ok_def length_of_def calls_ok_def wouldblock_def
      bytes_read_def wire_def payloads_def unmask_def upt_conv_Cons)

text \<open>
  C4. Once the calls have read the two header bytes of a masked data frame and the
  extended length that the second byte asks for, however these bytes were split over
  reads and calls, the decoder waits for the masking key (\<^verbatim>\<open>state = 'M'\<close>) with
  \<^verbatim>\<open>datalen\<close> holding: the 7-bit field \<^verbatim>\<open>n\<close> itself when \<^verbatim>\<open>n < 126\<close>; the number the next 2
  bytes write in big-endian order when \<^verbatim>\<open>n = 126\<close>; the number the next 8 bytes write
  in big-endian order when \<^verbatim>\<open>n = 127\<close>, with no truncation (\<^verbatim>\<open>be_nat\<close> of 8 bytes ranges
  over all of \<^verbatim>\<open>0 .. 2^64 - 1\<close>).
\<close>

theorem length_decoding:
  assumes "header_ok h l ext" "calls_ok cs" "bytes_read cs = h # l # ext"
  shows "len_view (calls cs inb0) = Some (SM, length_of l ext)"
proof -
  from pure_header[OF assms(1) resting_inb0(4)] obtain x where x:
    "pure_run inb0 (h # l # ext @ []) = pure_run x []" "state x = SM"
    "unat (datalen x) = length_of l ext"
    by blast
  have "pure_run x [] = Inr x" using x(2) by (intro pure_run_rest) simp_all
  then have "pure_run (core_of inb0) (window inb0 @ bytes_read cs) = Inr x"
    using x(1) assms(3) by (simp add: resting_inb0)
  from calls_sim[OF resting_inb0(1) assms(2) this] obtain d1 where
    "calls cs inb0 = Inr d1" "core_of d1 = x" by blast
  then show ?thesis using core_same[of d1 x] x(2,3) by (simp add: len_view_def)
qed

theorem length_decoding_witness:
  "len_view (calls [([[0x82, 0xff, 0xff, 0xff, 0xff]], EAGAIN),
                    ([[0xff, 0xff], [0xff, 0xff, 0xfe]], EAGAIN)] inb0)
     = Some (SM, 18446744073709551614)"
  using length_decoding[of "0x82" "0xff" "[0xff, 0xff, 0xff, 0xff, 0xff, 0xff, 0xff, 0xfe]"
      "[([[0x82, 0xff, 0xff, 0xff, 0xff]], EAGAIN), ([[0xff, 0xff], [0xff, 0xff, 0xfe]], EAGAIN)]"]
  by (simp add: header_ok_def length_of_def calls_ok_def wouldblock_def bytes_read_def
      be_nat_def)

subsection \<open>The frame decoder: when a call returns\<close>






















end
